theory Spec2Isabelle
  imports Complex_Main
begin

section \<open>Panics and recovery\<close>

text \<open>
  A Go call either returns or panics with an argument. The argument of \<^verbatim>\<open>panic\<close> is an
  interface value: \<^verbatim>\<open>nil\<close>, or something else (of which only a text is kept).
\<close>

datatype panic_arg = PanicNil | PanicWith string

datatype outcome = Return | Panic panic_arg

text \<open>
  \<^verbatim>\<open>recover()\<close> called by a deferred function: the argument of the panic in flight, and
  \<^verbatim>\<open>nil\<close> (here \<open>None\<close>) when the function is not panicking or when the argument was
  \<^verbatim>\<open>nil\<close> (the toolchain of the Dockerfile is Go 1.16). In every case the panic stops.
\<close>

fun recover :: "outcome \<Rightarrow> string option" where
  "recover Return = None"
| "recover (Panic PanicNil) = None"
| "recover (Panic (PanicWith v)) = Some v"

section \<open>Decimal integers\<close>

definition digit_char :: "nat \<Rightarrow> char" where
  "digit_char d = ''0123456789'' ! d"

function digits :: "nat \<Rightarrow> string" where
  "digits n = (if n < 10 then [digit_char n] else digits (n div 10) @ [digit_char (n mod 10)])"
  by pat_completeness auto
termination
  by (relation "measure (\<lambda>n. n)") auto

declare digits.simps [simp del]

text \<open>\<^verbatim>\<open>strconv.Itoa\<close>, which both \<^verbatim>\<open>fmt\<close>'s \<^verbatim>\<open>%v\<close> and \<^verbatim>\<open>encoding/json\<close> use for an \<^verbatim>\<open>int\<close>.\<close>

definition itoa :: "int \<Rightarrow> string" where
  "itoa i = (if i < 0 then CHR ''-'' # digits (nat (- i)) else digits (nat i))"

section \<open>JSON text as \<^verbatim>\<open>encoding/json\<close> writes it\<close>

text \<open>
  \<^verbatim>\<open>json.Marshal\<close> and \<^verbatim>\<open>(*json.Encoder).Encode\<close> of the Go 1.16 library, both with HTML
  escaping on, for the values this program encodes: structs of strings, an \<^verbatim>\<open>int\<close> and a
  \<^verbatim>\<open>float64\<close>. A \<open>string\<close> is a list of bytes, as a Go string is.
\<close>

definition hex :: string where
  "hex = ''0123456789abcdef''"

text \<open>The bytes \<^verbatim>\<open>htmlSafeSet\<close> lets through unescaped.\<close>

definition htmlSafeSet :: "char \<Rightarrow> bool" where
  "htmlSafeSet b =
     (0x20 \<le> (of_char b :: nat) \<and> (of_char b :: nat) < 0x80 \<and> b \<noteq> CHR 0x22 \<and> b \<noteq> CHR ''&''
      \<and> b \<noteq> CHR ''<'' \<and> b \<noteq> CHR ''>'' \<and> b \<noteq> CHR 0x5C)"

definition RuneError :: nat where
  "RuneError = 0xFFFD"

text \<open>
  The table \<^verbatim>\<open>first\<close> of package \<^verbatim>\<open>utf8\<close> for a leading byte in C2..F4: the length of
  the sequence, and the range \<^verbatim>\<open>acceptRanges\<close> allows for its second byte.
\<close>

definition first_size :: "nat \<Rightarrow> nat" where
  "first_size s0 = (if s0 < 0xE0 then 2 else if s0 < 0xF0 then 3 else 4)"

definition accept_lo :: "nat \<Rightarrow> nat" where
  "accept_lo s0 = (if s0 = 0xE0 then 0xA0 else if s0 = 0xF0 then 0x90 else 0x80)"

definition accept_hi :: "nat \<Rightarrow> nat" where
  "accept_hi s0 = (if s0 = 0xED then 0x9F else if s0 = 0xF4 then 0x8F else 0xBF)"

text \<open>
  \<^verbatim>\<open>utf8.DecodeRuneInString\<close>: the code point at the head of the string and the number of
  bytes it takes; \<open>(RuneError, 1)\<close> when the head is not a valid UTF-8 sequence.
\<close>

fun DecodeRuneInString :: "string \<Rightarrow> nat \<times> nat" where
  "DecodeRuneInString [] = (RuneError, 0)"
| "DecodeRuneInString (c0 # s) =
     (let s0 = (of_char c0 :: nat) in
      if s0 < 0x80 then (s0, 1)
      else if s0 < 0xC2 \<or> 0xF4 < s0 then (RuneError, 1)
      else
        let sz = first_size s0 in
        if length (c0 # s) < sz then (RuneError, 1)
        else
          let s1 = (of_char (s ! 0) :: nat) in
          if s1 < accept_lo s0 \<or> accept_hi s0 < s1 then (RuneError, 1)
          else if sz \<le> 2 then ((s0 mod 32) * 64 + s1 mod 64, 2)
          else
            let s2 = (of_char (s ! 1) :: nat) in
            if s2 < 0x80 \<or> 0xBF < s2 then (RuneError, 1)
            else if sz \<le> 3 then ((s0 mod 16) * 4096 + (s1 mod 64) * 64 + s2 mod 64, 3)
            else
              let s3 = (of_char (s ! 2) :: nat) in
              if s3 < 0x80 \<or> 0xBF < s3 then (RuneError, 1)
              else ((s0 mod 8) * 262144 + (s1 mod 64) * 4096 + (s2 mod 64) * 64 + s3 mod 64, 4))"

lemma DecodeRuneInString_size:
  "DecodeRuneInString (c # s) = (r, n) \<Longrightarrow> 1 \<le> n \<and> n \<le> 4"
  by (auto simp: Let_def split: if_splits)

declare DecodeRuneInString.simps [simp del]

text \<open>The escape of an ASCII byte that is not in \<open>htmlSafeSet\<close>.\<close>

definition escapeByte :: "char \<Rightarrow> string" where
  "escapeByte b =
     CHR 0x5C #
       (if b = CHR 0x5C \<or> b = CHR 0x22 then [b]
        else if b = CHR 0x0A then ''n''
        else if b = CHR 0x0D then ''r''
        else if b = CHR 0x09 then ''t''
        else ''u00'' @ [hex ! (of_char b div 16), hex ! (of_char b mod 16)])"

text \<open>
  \<^verbatim>\<open>(*encodeState).string\<close> between its two quotes: safe ASCII and valid UTF-8 pass, an
  invalid byte becomes the escape of U+FFFD, U+2028 and U+2029 are escaped.
\<close>

function encodeString :: "string \<Rightarrow> string" where
  "encodeString [] = []"
| "encodeString (c # s) =
     (if (of_char c :: nat) < 0x80 then
        (if htmlSafeSet c then c # encodeString s else escapeByte c @ encodeString s)
      else
        (case DecodeRuneInString (c # s) of
           (r, n) \<Rightarrow>
             if r = RuneError \<and> n = 1 then
               (CHR 0x5C # ''ufffd'') @ encodeString (drop n (c # s))
             else if r = 0x2028 \<or> r = 0x2029 then
               (CHR 0x5C # ''u202'') @ [hex ! (r mod 16)] @ encodeString (drop n (c # s))
             else take n (c # s) @ encodeString (drop n (c # s))))"
  by pat_completeness auto
termination
proof (relation "measure length")
  show "wf (measure length)" by simp
qed (auto dest!: DecodeRuneInString_size [OF sym])

definition quote :: "string \<Rightarrow> string" where
  "quote s = CHR 0x22 # s @ [CHR 0x22]"

definition stringEncoder :: "string \<Rightarrow> string" where
  "stringEncoder s = quote (encodeString s)"

text \<open>
  \<^verbatim>\<open>structEncoder.encode\<close> over the fields of a struct, each with the name of its
  \<^verbatim>\<open>json\<close> tag and its encoded value: \<open>next\<close> is the byte written before the next field.
\<close>

fun structFields :: "char \<Rightarrow> (string \<times> string) list \<Rightarrow> string" where
  "structFields next [] = (if next = CHR ''{'' then ''{}'' else ''}'')"
| "structFields next ((name, v) # fs) =
     next # quote name @ '':'' @ v @ structFields (CHR '','') fs"

definition structEncoder :: "(string \<times> string) list \<Rightarrow> string" where
  "structEncoder fs = structFields (CHR ''{'') fs"

section \<open>The response sink of the HTTP server\<close>

text \<open>
  The \<^verbatim>\<open>http.ResponseWriter\<close> that \<^verbatim>\<open>net/http\<close> hands to the handler of \<^verbatim>\<open>srv\<close>: the
  status line it has fixed and the body bytes it has accepted. \<open>hdr_calls\<close> is a history
  variable: the arguments of the \<^verbatim>\<open>WriteHeader\<close> calls its callers made, oldest first.
\<close>

record response =
  hdr_calls :: "int list"
  resp_wroteHeader :: bool
  resp_status :: int
  resp_body :: string

definition newResponse :: response where
  "newResponse = \<lparr>hdr_calls = [], resp_wroteHeader = False, resp_status = 0, resp_body = []\<rparr>"

text \<open>
  \<^verbatim>\<open>(*response).WriteHeader\<close>: a call after the header is fixed is superfluous and
  ignored; a code outside 100..999 panics (\<^verbatim>\<open>checkWriteHeaderCode\<close>); otherwise the code
  becomes the status.
\<close>

definition response_WriteHeader :: "int \<Rightarrow> response \<Rightarrow> response \<times> outcome" where
  "response_WriteHeader code w =
     (let w1 = w\<lparr>hdr_calls := hdr_calls w @ [code]\<rparr> in
      if resp_wroteHeader w then (w1, Return)
      else if code < 100 \<or> code > 999
        then (w1, Panic (PanicWith (''invalid WriteHeader code '' @ itoa code)))
      else (w1\<lparr>resp_wroteHeader := True, resp_status := code\<rparr>, Return))"

definition bodyAllowedForStatus :: "int \<Rightarrow> bool" where
  "bodyAllowedForStatus st =
     (if 100 \<le> st \<and> st \<le> 199 then False
      else if st = 204 then False
      else if st = 304 then False
      else True)"

text \<open>
  \<^verbatim>\<open>(*response).Write\<close>: the first write fixes status 200 when no header was written, then
  the bytes are accepted unless the status forbids a body. (The request is taken not to be
  a HEAD request and the handler to declare no Content-Length.)
\<close>

definition response_Write :: "string \<Rightarrow> response \<Rightarrow> response" where
  "response_Write data w =
     (let w1 = (if \<not> resp_wroteHeader w
                then w\<lparr>resp_wroteHeader := True, resp_status := 200\<rparr> else w) in
      if data = [] then w1
      else if \<not> bodyAllowedForStatus (resp_status w1) then w1
      else w1\<lparr>resp_body := resp_body w1 @ data\<rparr>)"

text \<open>
  \<^verbatim>\<open>(*response).finishRequest\<close>, once the handler of the server has returned: a response
  whose header was never written goes out with status 200.
\<close>

definition finishRequest :: "response \<Rightarrow> response" where
  "finishRequest w =
     (if \<not> resp_wroteHeader w then w\<lparr>resp_wroteHeader := True, resp_status := 200\<rparr> else w)"

section \<open>The response-capture wrapper\<close>

text \<open>
  \<^verbatim>\<open>type responseWriter struct { http.ResponseWriter; status int; wroteHeader bool }\<close>.
  The embedded writer is a reference to the sink; the model keeps the sink inside the
  wrapper and the middleware reads it back from there.
\<close>

record responseWriter =
  ResponseWriter :: response
  status :: int
  wroteHeader :: bool

definition wrapResponseWriter :: "response \<Rightarrow> responseWriter" where
  "wrapResponseWriter w = \<lparr>ResponseWriter = w, status = 0, wroteHeader = False\<rparr>"

definition responseWriter_Status :: "responseWriter \<Rightarrow> int" where
  "responseWriter_Status rw = status rw"

text \<open>
  \<^verbatim>\<open>(*responseWriter).WriteHeader\<close>. When the sink panics, the assignment to \<open>status\<close> has
  happened and the one to \<open>wroteHeader\<close> has not.
\<close>

definition responseWriter_WriteHeader :: "int \<Rightarrow> responseWriter \<Rightarrow> responseWriter \<times> outcome" where
  "responseWriter_WriteHeader code rw =
     (if wroteHeader rw then (rw, Return)
      else
        let rw1 = rw\<lparr>status := code\<rparr> in
        case response_WriteHeader code (ResponseWriter rw1) of
          (w', Panic v) \<Rightarrow> (rw1\<lparr>ResponseWriter := w'\<rparr>, Panic v)
        | (w', Return) \<Rightarrow> (rw1\<lparr>ResponseWriter := w', wroteHeader := True\<rparr>, Return))"

text \<open>
  The wrapper declares no \<^verbatim>\<open>Write\<close>: the method is promoted from the embedded writer and
  goes to the sink without touching \<open>status\<close> or \<open>wroteHeader\<close>.
\<close>

definition responseWriter_Write :: "string \<Rightarrow> responseWriter \<Rightarrow> responseWriter" where
  "responseWriter_Write data rw = rw\<lparr>ResponseWriter := response_Write data (ResponseWriter rw)\<rparr>"

section \<open>Handlers\<close>

text \<open>
  What a handler does with the writer it is given: a sequence of calls. In \<open>run_calls\<close> a
  call that panics ends the sequence, as the panic unwinds the handler.
\<close>

datatype call = CallWriteHeader int | CallWrite string

fun run_calls :: "call list \<Rightarrow> responseWriter \<Rightarrow> responseWriter \<times> outcome" where
  "run_calls [] rw = (rw, Return)"
| "run_calls (CallWriteHeader code # cs) rw =
     (case responseWriter_WriteHeader code rw of
        (rw', Panic v) \<Rightarrow> (rw', Panic v)
      | (rw', Return) \<Rightarrow> run_calls cs rw')"
| "run_calls (CallWrite data # cs) rw = run_calls cs (responseWriter_Write data rw)"

text \<open>
  A handler may also stop a panic of one of its calls itself, with a deferred \<^verbatim>\<open>recover()\<close>
  around that call, and go on: \<open>run_all\<close> makes every call of the sequence, on the writer
  as the call before left it, whether that call returned or panicked.
\<close>

fun run_all :: "call list \<Rightarrow> responseWriter \<Rightarrow> responseWriter" where
  "run_all [] rw = rw"
| "run_all (CallWriteHeader code # cs) rw = run_all cs (fst (responseWriter_WriteHeader code rw))"
| "run_all (CallWrite data # cs) rw = run_all cs (responseWriter_Write data rw)"

text \<open>The codes of the \<^verbatim>\<open>WriteHeader\<close> calls among the calls of a handler.\<close>

fun header_codes :: "call list \<Rightarrow> int list" where
  "header_codes [] = []"
| "header_codes (CallWriteHeader code # cs) = code # header_codes cs"
| "header_codes (CallWrite d # cs) = header_codes cs"

text \<open>
  \<^verbatim>\<open>http.Handler\<close>: \<^verbatim>\<open>ServeHTTP(w, r)\<close> changes the writer and returns or panics. The
  request carries what the middleware reads of it.
\<close>

record request =
  req_Method :: string
  req_URL :: string
  req_Referer :: string
  req_UserAgent :: string

type_synonym handler = "request \<Rightarrow> responseWriter \<Rightarrow> responseWriter \<times> outcome"

text \<open>A handler that makes the calls \<open>cs\<close> and then ends as \<open>fin\<close>.\<close>

definition scripted :: "call list \<Rightarrow> outcome \<Rightarrow> handler" where
  "scripted cs fin r rw =
     (case run_calls cs rw of
        (rw', Panic v) \<Rightarrow> (rw', Panic v)
      | (rw', Return) \<Rightarrow> (rw', fin))"

section \<open>The error envelope\<close>

record JSONError =
  Error :: string

text \<open>
  A non-nil \<^verbatim>\<open>error\<close>: one that implements \<^verbatim>\<open>awserr.Error\<close>, with what its \<^verbatim>\<open>Code()\<close> and
  its \<^verbatim>\<open>Error()\<close> return, or any other, with what its \<^verbatim>\<open>Error()\<close> returns.
\<close>

datatype go_error = AwsError string string | OtherError string

fun error_Error :: "go_error \<Rightarrow> string" where
  "error_Error (AwsError code text) = text"
| "error_Error (OtherError text) = text"

definition Marshal_JSONError :: "JSONError \<Rightarrow> string" where
  "Marshal_JSONError je = structEncoder [(''error'', stringEncoder (Error je))]"

text \<open>\<^verbatim>\<open>json.NewEncoder(w).Encode(je)\<close>: the encoding and a newline, in one \<^verbatim>\<open>Write\<close>.\<close>

definition Encode_JSONError :: "JSONError \<Rightarrow> responseWriter \<Rightarrow> responseWriter" where
  "Encode_JSONError je w = responseWriter_Write (Marshal_JSONError je @ [CHR 0x0A]) w"

text \<open>
  \<^verbatim>\<open>errorHandler(w, err)\<close>. The \<^verbatim>\<open>switch\<close> on the code has the \<^verbatim>\<open>default\<close> case only. Every
  call of the program passes the wrapped response writer as \<open>w\<close>.
\<close>

definition errorHandler :: "responseWriter \<Rightarrow> go_error \<Rightarrow> responseWriter" where
  "errorHandler w err =
     (let je = \<lparr>Error = []\<rparr>;
          je' = (case err of
                   AwsError code text \<Rightarrow> je\<lparr>Error := error_Error err\<rparr>
                 | OtherError text \<Rightarrow> je\<lparr>Error := error_Error err\<rparr>)
      in Encode_JSONError je' w)"

section \<open>The routes\<close>

definition rootHandler :: handler where
  "rootHandler r rw = (responseWriter_Write ''WORKING'' rw, Return)"

text \<open>
  The handler of \<^verbatim>\<open>/identity\<close>. The two calls into the AWS SDK are its parameters:
  \<open>newSession\<close> is the error of \<^verbatim>\<open>session.NewSession\<close>, if any, and \<open>getCallerIdentity\<close>
  the error of \<^verbatim>\<open>svc.GetCallerIdentity\<close> or else the JSON text of its result.
\<close>

definition identityHandler :: "go_error option \<Rightarrow> go_error + string \<Rightarrow> handler" where
  "identityHandler newSession getCallerIdentity r rw =
     (case newSession of
        Some err \<Rightarrow> (errorHandler rw err, Return)
      | None \<Rightarrow>
          (case getCallerIdentity of
             Inl err \<Rightarrow> (errorHandler rw err, Return)
           | Inr result \<Rightarrow> (responseWriter_Write (result @ [CHR 0x0A]) rw, Return)))"

section \<open>The logging middleware\<close>

text \<open>
  \<^verbatim>\<open>HTTPRequestInfo\<close> with its \<^verbatim>\<open>json\<close> tags. A \<^verbatim>\<open>float64\<close> is a real here; how
  \<^verbatim>\<open>encoding/json\<close> writes one is the parameter \<open>floatEncoder\<close> of the model, \<open>None\<close>
  being its \<^verbatim>\<open>UnsupportedValueError\<close>.
\<close>

record HTTPRequestInfo =
  Method :: string
  URL :: string
  Referer :: string
  UserAgent :: string
  Status :: int
  Duration :: real

datatype marshal_error = UnsupportedValueError

definition fields_HTTPRequestInfo :: "HTTPRequestInfo \<Rightarrow> string \<Rightarrow> (string \<times> string) list" where
  "fields_HTTPRequestInfo info d =
     [(''method'', stringEncoder (Method info)),
      (''url'', stringEncoder (URL info)),
      (''referer'', stringEncoder (Referer info)),
      (''userAgent'', stringEncoder (UserAgent info)),
      (''status'', itoa (Status info)),
      (''duration'', d)]"

definition Marshal_HTTPRequestInfo ::
  "(real \<Rightarrow> string option) \<Rightarrow> HTTPRequestInfo \<Rightarrow> marshal_error + string" where
  "Marshal_HTTPRequestInfo floatEncoder info =
     (case floatEncoder (Duration info) of
        None \<Rightarrow> Inl UnsupportedValueError
      | Some d \<Rightarrow> Inr (structEncoder (fields_HTTPRequestInfo info d)))"

text \<open>
  What one request works on: the response sink and the lines the middleware hands to the
  standard logger by \<^verbatim>\<open>log.Print\<close> and \<^verbatim>\<open>log.Printf\<close>, oldest first (the logger puts the
  date and time before each and a newline after it). What the HTTP server itself reports on
  that logger, such as its warning about a superfluous \<^verbatim>\<open>WriteHeader\<close> call, is not among
  them.
\<close>

type_synonym conn = "response \<times> string list"

text \<open>
  The deferred function of the middleware, run when the function body ended as \<open>out\<close>.
\<close>

definition deferred :: "outcome \<Rightarrow> conn \<Rightarrow> conn \<times> outcome" where
  \<open>deferred out s =
     (case recover out of
        None \<Rightarrow> (s, Return)
      | Some err \<Rightarrow>
          (case response_WriteHeader 500 (fst s) of
             (rw', Panic v) \<Rightarrow> ((rw', snd s), Panic v)
           | (rw', Return) \<Rightarrow> ((rw', snd s @ [''{"err"}'']), Return)))\<close>

text \<open>
  \<^verbatim>\<open>loggingMiddleware(h)\<close> serving the request \<open>r\<close>; \<open>elapsed\<close> is \<^verbatim>\<open>time.Since(start)\<close>,
  in nanoseconds.
\<close>

definition loggingMiddleware ::
  "(real \<Rightarrow> string option) \<Rightarrow> handler \<Rightarrow> int \<Rightarrow> request \<Rightarrow> conn \<Rightarrow> conn \<times> outcome" where
  "loggingMiddleware floatEncoder h elapsed r s =
     (let info = \<lparr>Method = req_Method r, URL = req_URL r, Referer = req_Referer r,
                  UserAgent = req_UserAgent r, Status = 0, Duration = 0\<rparr>;
          wrapped = wrapResponseWriter (fst s)
      in
      case h r wrapped of
        (wrapped', Panic v) \<Rightarrow> deferred (Panic v) (ResponseWriter wrapped', snd s)
      | (wrapped', Return) \<Rightarrow>
          let rw = ResponseWriter wrapped';
              info' = info\<lparr>Duration := real_of_int elapsed / 1000000000\<rparr>
          in
          (case Marshal_HTTPRequestInfo floatEncoder info' of
             Inl err \<Rightarrow>
               (case response_WriteHeader 500 rw of
                  (rw', out) \<Rightarrow> deferred out (rw', snd s))
           | Inr b \<Rightarrow> deferred Return (rw, snd s @ [b])))"

section \<open>Reading JSON text back\<close>

text \<open>
  What a reader of JSON makes of the bytes, to say what ``valid JSON of the form
  \<^verbatim>\<open>{"error": "<string>"}\<close>'' means: the string grammar of RFC 8259, decoded to UTF-8 bytes.
  None of this is code of the program.
\<close>

text \<open>The value of a hexadecimal digit.\<close>

definition hexDigit :: "char \<Rightarrow> nat option" where
  "hexDigit c =
     (let n = (of_char c :: nat) in
      if 0x30 \<le> n \<and> n \<le> 0x39 then Some (n - 0x30)
      else if 0x61 \<le> n \<and> n \<le> 0x66 then Some (n - 0x61 + 10)
      else if 0x41 \<le> n \<and> n \<le> 0x46 then Some (n - 0x41 + 10)
      else None)"

text \<open>The code point of the four digits of a \<^verbatim>\<open>\u\<close> escape.\<close>

fun hex4 :: "string \<Rightarrow> nat option" where
  "hex4 [a, b, c, d] =
     (case (hexDigit a, hexDigit b, hexDigit c, hexDigit d) of
        (Some w, Some x, Some y, Some z) \<Rightarrow> Some (((w * 16 + x) * 16 + y) * 16 + z)
      | _ \<Rightarrow> None)"
| "hex4 _ = None"

text \<open>\<^verbatim>\<open>utf8.EncodeRune\<close> for a code point below 0x10000.\<close>

definition EncodeRune :: "nat \<Rightarrow> string" where
  "EncodeRune r =
     (if r < 0x80 then [char_of r]
      else if r < 0x800 then [char_of (0xC0 + r div 64), char_of (0x80 + r mod 64)]
      else [char_of (0xE0 + r div 4096), char_of (0x80 + (r div 64) mod 64),
            char_of (0x80 + r mod 64)])"

text \<open>
  The characters between the quotes of a JSON string, decoded; \<open>None\<close> when they are not
  characters of a JSON string (a bare quote, a control byte, a broken escape). An escape of a
  surrogate is not read.
\<close>

fun unescape :: "string \<Rightarrow> string option" where
  "unescape [] = Some []"
| "unescape (c # s) =
     (if c = CHR 0x5C then
        (case s of
           [] \<Rightarrow> None
         | e # t \<Rightarrow>
             if e = CHR 0x22 \<or> e = CHR 0x5C \<or> e = CHR ''/'' then map_option ((#) e) (unescape t)
             else if e = CHR ''b'' then map_option ((#) (CHR 0x08)) (unescape t)
             else if e = CHR ''f'' then map_option ((#) (CHR 0x0C)) (unescape t)
             else if e = CHR ''n'' then map_option ((#) (CHR 0x0A)) (unescape t)
             else if e = CHR ''r'' then map_option ((#) (CHR 0x0D)) (unescape t)
             else if e = CHR ''t'' then map_option ((#) (CHR 0x09)) (unescape t)
             else if e = CHR ''u'' then
               (case hex4 (take 4 t) of
                  None \<Rightarrow> None
                | Some r \<Rightarrow>
                    if 0xD800 \<le> r \<and> r < 0xE000 then None
                    else map_option ((@) (EncodeRune r)) (unescape (drop 4 t)))
             else None)
      else if c = CHR 0x22 \<or> (of_char c :: nat) < 0x20 then None
      else map_option ((#) c) (unescape s))"

text \<open>A whole JSON string, quotes included.\<close>

definition unquote :: "string \<Rightarrow> string option" where
  "unquote s =
     (if 2 \<le> length s \<and> hd s = CHR 0x22 \<and> last s = CHR 0x22 then unescape (butlast (tl s))
      else None)"

text \<open>
  The text of an object with the one member \<^verbatim>\<open>error\<close>, a string, and a newline after it:
  the string it holds.
\<close>

definition readEnvelope :: "string \<Rightarrow> string option" where
  \<open>readEnvelope b =
     (if 11 \<le> length b \<and> take 9 b = ''{"error":'' \<and> drop (length b - 2) b = ''}'' @ [CHR 0x0A]
      then unquote (take (length b - 11) (drop 9 b))
      else None)\<close>

text \<open>
  A byte string with every byte that starts no valid UTF-8 sequence replaced by U+FFFD,
  and \<^verbatim>\<open>utf8.ValidString\<close>: no such byte.
\<close>

function coerceUTF8 :: "string \<Rightarrow> string" where
  "coerceUTF8 [] = []"
| "coerceUTF8 (c # s) =
     (if (of_char c :: nat) < 0x80 then c # coerceUTF8 s
      else
        (case DecodeRuneInString (c # s) of
           (r, n) \<Rightarrow>
             if r = RuneError \<and> n = 1 then EncodeRune RuneError @ coerceUTF8 (drop n (c # s))
             else take n (c # s) @ coerceUTF8 (drop n (c # s))))"
  by pat_completeness auto
termination
proof (relation "measure length")
  show "wf (measure length)" by simp
qed (auto dest!: DecodeRuneInString_size [OF sym])

function ValidString :: "string \<Rightarrow> bool" where
  "ValidString [] = True"
| "ValidString (c # s) =
     (if (of_char c :: nat) < 0x80 then ValidString s
      else
        (case DecodeRuneInString (c # s) of
           (r, n) \<Rightarrow>
             if r = RuneError \<and> n = 1 then False
             else ValidString (drop n (c # s))))"
  by pat_completeness auto
termination
proof (relation "measure length")
  show "wf (measure length)" by simp
qed (auto dest!: DecodeRuneInString_size [OF sym])

section \<open>The lifecycle of the process\<close>

text \<open>
  \<^verbatim>\<open>main\<close> from the start of its goroutine on. The goroutine is a straight line of
  statements and \<open>task_loc\<close> names the one it is at: \<^verbatim>\<open>signal.Notify\<close> (with the \<^verbatim>\<open>make\<close>
  of the channel before it), the receive \<^verbatim>\<open><-sigint\<close>, the call of \<^verbatim>\<open>srv.Shutdown\<close>, its
  return, \<^verbatim>\<open>close(idleConnsClosed)\<close>, the end. The main goroutine is inside
  \<^verbatim>\<open>srv.ListenAndServe\<close>, before or after the listener is bound, or at
  \<^verbatim>\<open><-idleConnsClosed\<close>, or the process has ended.
\<close>

datatype task_loc = AtNotify | AtReceive | AtShutdown | InShutdown | AtClose | AtEnd

datatype exit_cause = Done | Fatal | Killed

datatype main_loc = Binding | Accepting | AwaitIdleConnsClosed | Exited exit_cause

text \<open>
  \<open>sigint\<close> counts the signals waiting in the channel, which holds one; \<open>shutdowns\<close>
  counts the calls of \<^verbatim>\<open>srv.Shutdown\<close> made so far.
\<close>

record process =
  main_pc :: main_loc
  task_pc :: task_loc
  notified :: bool
  sigint :: nat
  shutdowns :: nat
  idleConnsClosed :: bool

definition initial :: process where
  "initial = \<lparr>main_pc = Binding, task_pc = AtNotify, notified = False, sigint = 0,
              shutdowns = 0, idleConnsClosed = False\<rparr>"

text \<open>
  What can happen next. \<open>Interrupt\<close>: the system delivers an interrupt signal; before
  \<^verbatim>\<open>signal.Notify\<close> has run it ends the process, afterwards package \<^verbatim>\<open>signal\<close> sends it
  on the channel without blocking, so it is dropped when the slot is taken. \<open>TaskStep\<close>:
  the goroutine runs its next statement, if it can: the receive waits for a signal.
  \<open>Bound\<close>: the listener is bound. \<open>ListenError\<close>: \<^verbatim>\<open>ListenAndServe\<close> returns an error other
  than \<^verbatim>\<open>ErrServerClosed\<close> and \<^verbatim>\<open>log.Fatalf\<close> ends the process. \<open>ListenClosed\<close>: it
  returns \<^verbatim>\<open>ErrServerClosed\<close>, which takes a call of \<^verbatim>\<open>Shutdown\<close>. \<open>MainStep\<close>: \<^verbatim>\<open>main\<close>
  receives from the closed \<^verbatim>\<open>idleConnsClosed\<close> and returns.
\<close>

datatype event = Interrupt | TaskStep | Bound | ListenError | ListenClosed | MainStep

definition task_step :: "process \<Rightarrow> process" where
  "task_step p =
     (case task_pc p of
        AtNotify \<Rightarrow> p\<lparr>notified := True, task_pc := AtReceive\<rparr>
      | AtReceive \<Rightarrow> if 0 < sigint p then p\<lparr>sigint := sigint p - 1, task_pc := AtShutdown\<rparr> else p
      | AtShutdown \<Rightarrow> p\<lparr>shutdowns := shutdowns p + 1, task_pc := InShutdown\<rparr>
      | InShutdown \<Rightarrow> p\<lparr>task_pc := AtClose\<rparr>
      | AtClose \<Rightarrow> p\<lparr>idleConnsClosed := True, task_pc := AtEnd\<rparr>
      | AtEnd \<Rightarrow> p)"

definition listening :: "process \<Rightarrow> bool" where
  "listening p = (main_pc p = Binding \<or> main_pc p = Accepting)"

fun step :: "event \<Rightarrow> process \<Rightarrow> process" where
  "step e p =
     (case main_pc p of
        Exited c \<Rightarrow> p
      | _ \<Rightarrow>
         (case e of
            Interrupt \<Rightarrow>
              if \<not> notified p then p\<lparr>main_pc := Exited Killed\<rparr>
              else if sigint p < 1 then p\<lparr>sigint := sigint p + 1\<rparr>
              else p
          | TaskStep \<Rightarrow> task_step p
          | Bound \<Rightarrow> if main_pc p = Binding then p\<lparr>main_pc := Accepting\<rparr> else p
          | ListenError \<Rightarrow> if listening p then p\<lparr>main_pc := Exited Fatal\<rparr> else p
          | ListenClosed \<Rightarrow>
              if listening p \<and> 0 < shutdowns p then p\<lparr>main_pc := AwaitIdleConnsClosed\<rparr> else p
          | MainStep \<Rightarrow>
              if main_pc p = AwaitIdleConnsClosed \<and> idleConnsClosed p
              then p\<lparr>main_pc := Exited Done\<rparr> else p))"

fun run :: "event list \<Rightarrow> process \<Rightarrow> process" where
  "run [] p = p"
| "run (e # es) p = run es (step e p)"

text \<open>
  The states of the specification: shutting down from the moment the goroutine has taken
  the signal, stopped when the process has ended.
\<close>

datatype ServerLifecycleState = Starting | Serving | ShuttingDown | Stopped

definition lifecycle :: "process \<Rightarrow> ServerLifecycleState" where
  "lifecycle p =
     (case main_pc p of
        Exited c \<Rightarrow> Stopped
      | _ \<Rightarrow>
          if task_pc p = AtNotify \<or> task_pc p = AtReceive
          then (if main_pc p = Binding then Starting else Serving)
          else ShuttingDown)"

text \<open>How often a run enters \<open>ShuttingDown\<close> from another state.\<close>

fun entries :: "event list \<Rightarrow> process \<Rightarrow> nat" where
  "entries [] p = 0"
| "entries (e # es) p =
     (if lifecycle p \<noteq> ShuttingDown \<and> lifecycle (step e p) = ShuttingDown then 1 else 0)
       + entries es (step e p)"

text \<open>The goroutine is past its receive.\<close>

definition begun :: "process \<Rightarrow> bool" where
  "begun p = (task_pc p \<noteq> AtNotify \<and> task_pc p \<noteq> AtReceive)"

text \<open>What the counters say at each statement of the goroutine.\<close>

definition shutdown_inv :: "process \<Rightarrow> bool" where
  "shutdown_inv p =
     (shutdowns p = (if task_pc p = AtNotify \<or> task_pc p = AtReceive \<or> task_pc p = AtShutdown
                     then 0 else 1) \<and>
      sigint p \<le> 1 \<and>
      (if task_pc p = AtNotify then \<not> notified p \<and> sigint p = 0 else notified p))"

section \<open>Inputs for the examples\<close>

definition exampleRequest :: request where
  "exampleRequest = \<lparr>req_Method = ''GET'', req_URL = ''/'', req_Referer = [],
                      req_UserAgent = ''curl/7.68.0''\<rparr>"

text \<open>A float encoder that knows one value: 2500000 ns are 0.0025 s.\<close>

definition exampleFloatEncoder :: "real \<Rightarrow> string option" where
  "exampleFloatEncoder d = (if d = 25 / 10000 then Some ''0.0025'' else None)"

section \<open>Properties of the response-capture wrapper\<close>

lemma response_Write_hdr_calls:
  "hdr_calls (response_Write d w) = hdr_calls w"
  by (simp add: response_Write_def Let_def)

lemma responseWriter_WriteHeader_ignored:
  "wroteHeader rw \<Longrightarrow> responseWriter_WriteHeader code rw = (rw, Return)"
  by (simp add: responseWriter_WriteHeader_def)

lemma responseWriter_WriteHeader_first:
  assumes "\<not> wroteHeader rw"
  shows "status (fst (responseWriter_WriteHeader code rw)) = code"
    and "snd (responseWriter_WriteHeader code rw) = Return \<Longrightarrow>
           wroteHeader (fst (responseWriter_WriteHeader code rw))"
    and "hdr_calls (ResponseWriter (fst (responseWriter_WriteHeader code rw))) =
           hdr_calls (ResponseWriter rw) @ [code]"
  using assms
  by (auto simp: responseWriter_WriteHeader_def response_WriteHeader_def Let_def
           split: prod.splits outcome.splits if_splits)

lemma run_calls_wroteHeader:
  "wroteHeader rw \<Longrightarrow>
     snd (run_calls cs rw) = Return \<and>
     status (fst (run_calls cs rw)) = status rw \<and>
     wroteHeader (fst (run_calls cs rw)) \<and>
     hdr_calls (ResponseWriter (fst (run_calls cs rw))) = hdr_calls (ResponseWriter rw)"
proof (induction cs arbitrary: rw)
  case Nil
  then show ?case by simp
next
  case (Cons c cs)
  show ?case
  proof (cases c)
    case (CallWriteHeader code)
    with Cons show ?thesis by (simp add: responseWriter_WriteHeader_ignored)
  next
    case (CallWrite d)
    have "wroteHeader (responseWriter_Write d rw)"
      using Cons.prems by (simp add: responseWriter_Write_def)
    from Cons.IH [OF this] CallWrite show ?thesis
      by (simp add: responseWriter_Write_def response_Write_hdr_calls)
  qed
qed

lemma responseWriter_WriteHeader_open:
  assumes "\<not> wroteHeader rw"
  shows "responseWriter_WriteHeader code rw =
     (if (100 \<le> code \<and> code \<le> 999) \<or> resp_wroteHeader (ResponseWriter rw)
      then (rw\<lparr>status := code, ResponseWriter := fst (response_WriteHeader code (ResponseWriter rw)),
               wroteHeader := True\<rparr>, Return)
      else (rw\<lparr>status := code,
               ResponseWriter := fst (response_WriteHeader code (ResponseWriter rw))\<rparr>,
            Panic (PanicWith (''invalid WriteHeader code '' @ itoa code))))"
  using assms
  by (auto simp: responseWriter_WriteHeader_def response_WriteHeader_def Let_def)

lemma run_all_wroteHeader:
  "wroteHeader rw \<Longrightarrow>
     status (run_all cs rw) = status rw \<and> wroteHeader (run_all cs rw) \<and>
     hdr_calls (ResponseWriter (run_all cs rw)) = hdr_calls (ResponseWriter rw)"
proof (induction cs arbitrary: rw)
  case Nil
  then show ?case by simp
next
  case (Cons c cs)
  show ?case
  proof (cases c)
    case (CallWriteHeader code)
    with Cons show ?thesis by (simp add: responseWriter_WriteHeader_ignored)
  next
    case (CallWrite d)
    have "wroteHeader (responseWriter_Write d rw)"
      using Cons.prems by (simp add: responseWriter_Write_def)
    from Cons.IH [OF this] CallWrite show ?thesis
      by (simp add: responseWriter_Write_def response_Write_hdr_calls)
  qed
qed

text \<open>
  C3 fails when the sink rejects the first code. On a fresh wrapper \<^verbatim>\<open>WriteHeader(99)\<close>
  records 99 and panics inside the sink before \<open>wroteHeader\<close> is set, so a
  \<^verbatim>\<open>WriteHeader(200)\<close> that follows is not ignored: the captured status is 200, not 99.
\<close>

theorem setStatus_first_wins_counterexample:
  "snd (responseWriter_WriteHeader 99 (wrapResponseWriter newResponse)) =
     Panic (PanicWith ''invalid WriteHeader code 99'') \<and>
   responseWriter_Status (fst (responseWriter_WriteHeader 99 (wrapResponseWriter newResponse))) = 99 \<and>
   responseWriter_Status
     (fst (responseWriter_WriteHeader 200
        (fst (responseWriter_WriteHeader 99 (wrapResponseWriter newResponse))))) = 200 \<and>
   responseWriter_Status
     (fst (responseWriter_WriteHeader 200
        (fst (responseWriter_WriteHeader 99 (wrapResponseWriter newResponse))))) \<noteq> 99"
  by (simp add: responseWriter_WriteHeader_def response_WriteHeader_def wrapResponseWriter_def
        newResponse_def responseWriter_Status_def itoa_def digits.simps digit_char_def)

text \<open>
  C3, as the code has it, for a wrapper that has not yet completed a \<^verbatim>\<open>WriteHeader\<close> call
  (every fresh wrapper). When the sink accepts the first code \<open>a\<close>, which it does for every
  \<open>a\<close> from 100 to 999 and for any \<open>a\<close> once its own header is written, the call returns,
  \<^verbatim>\<open>Status()\<close> is \<open>a\<close>, a second call \<^verbatim>\<open>WriteHeader(b)\<close> returns with the wrapper as it
  was, and \<^verbatim>\<open>Status()\<close> is still \<open>a\<close> after any further calls. When the sink rejects \<open>a\<close>,
  the call panics with \<open>a\<close> recorded and \<open>wroteHeader\<close> still unset, and a second call
  \<^verbatim>\<open>WriteHeader(b)\<close> overwrites the captured status with \<open>b\<close>.
\<close>

theorem setStatus_first_wins:
  assumes "\<not> wroteHeader rw"
  shows "if (100 \<le> a \<and> a \<le> 999) \<or> resp_wroteHeader (ResponseWriter rw)
         then snd (responseWriter_WriteHeader a rw) = Return \<and>
              responseWriter_Status (fst (responseWriter_WriteHeader a rw)) = a \<and>
              responseWriter_WriteHeader b (fst (responseWriter_WriteHeader a rw)) =
                (fst (responseWriter_WriteHeader a rw), Return) \<and>
              responseWriter_Status (run_all cs (fst (responseWriter_WriteHeader a rw))) = a
         else snd (responseWriter_WriteHeader a rw) =
                Panic (PanicWith (''invalid WriteHeader code '' @ itoa a)) \<and>
              responseWriter_Status (fst (responseWriter_WriteHeader a rw)) = a \<and>
              \<not> wroteHeader (fst (responseWriter_WriteHeader a rw)) \<and>
              responseWriter_Status
                (fst (responseWriter_WriteHeader b (fst (responseWriter_WriteHeader a rw)))) = b"
proof (cases "(100 \<le> a \<and> a \<le> 999) \<or> resp_wroteHeader (ResponseWriter rw)")
  case True
  let ?rw1 = "fst (responseWriter_WriteHeader a rw)"
  from True responseWriter_WriteHeader_open [OF assms, of a]
  have first: "snd (responseWriter_WriteHeader a rw) = Return" "status ?rw1 = a" "wroteHeader ?rw1"
    by simp_all
  from run_all_wroteHeader [OF first(3), of cs] first(2)
  have "status (run_all cs ?rw1) = a" by simp
  with first True show ?thesis
    by (simp add: responseWriter_Status_def responseWriter_WriteHeader_ignored)
next
  case False
  let ?rw1 = "fst (responseWriter_WriteHeader a rw)"
  have eq: "responseWriter_WriteHeader a rw =
      (rw\<lparr>status := a, ResponseWriter := fst (response_WriteHeader a (ResponseWriter rw))\<rparr>,
       Panic (PanicWith (''invalid WriteHeader code '' @ itoa a)))"
    using responseWriter_WriteHeader_open [OF assms, of a] by (simp only: False if_False)
  have first: "snd (responseWriter_WriteHeader a rw) =
                 Panic (PanicWith (''invalid WriteHeader code '' @ itoa a))"
    "status ?rw1 = a" "\<not> wroteHeader ?rw1"
    unfolding eq using assms by simp_all
  have "status (fst (responseWriter_WriteHeader b ?rw1)) = b"
    using responseWriter_WriteHeader_first(1) [OF first(3)] .
  with first show ?thesis
    by (simp only: False if_False responseWriter_Status_def simp_thms)
qed

text \<open>
  On a fresh wrapper: 404 first, then 200 and more calls, leaves 404; 99 first, then 200,
  leaves 200.
\<close>

theorem setStatus_first_wins_witness:
  "\<not> wroteHeader (wrapResponseWriter newResponse) \<and>
   snd (responseWriter_WriteHeader 404 (wrapResponseWriter newResponse)) = Return \<and>
   responseWriter_Status (fst (responseWriter_WriteHeader 404 (wrapResponseWriter newResponse))) = 404 \<and>
   responseWriter_Status
     (fst (responseWriter_WriteHeader 200
        (fst (responseWriter_WriteHeader 404 (wrapResponseWriter newResponse))))) = 404 \<and>
   responseWriter_Status
     (run_all [CallWriteHeader 200, CallWrite ''x'', CallWriteHeader 500]
        (fst (responseWriter_WriteHeader 404 (wrapResponseWriter newResponse)))) = 404 \<and>
   responseWriter_Status
     (fst (responseWriter_WriteHeader 200
        (fst (responseWriter_WriteHeader 99 (wrapResponseWriter newResponse))))) = 200"
proof -
  have open_: "\<not> wroteHeader (wrapResponseWriter newResponse)"
    by (simp add: wrapResponseWriter_def)
  note ok = setStatus_first_wins [OF open_, of 404 200 "[CallWriteHeader 200, CallWrite ''x'', CallWriteHeader 500]"]
  note bad = setStatus_first_wins [OF open_, of 99 200 "[]"]
  from ok have "snd (responseWriter_WriteHeader 404 (wrapResponseWriter newResponse)) = Return \<and>
   responseWriter_Status (fst (responseWriter_WriteHeader 404 (wrapResponseWriter newResponse))) = 404 \<and>
   responseWriter_WriteHeader 200 (fst (responseWriter_WriteHeader 404 (wrapResponseWriter newResponse))) =
     (fst (responseWriter_WriteHeader 404 (wrapResponseWriter newResponse)), Return) \<and>
   responseWriter_Status
     (run_all [CallWriteHeader 200, CallWrite ''x'', CallWriteHeader 500]
        (fst (responseWriter_WriteHeader 404 (wrapResponseWriter newResponse)))) = 404"
    by (simp del: run_all.simps)
  moreover from bad have "responseWriter_Status
     (fst (responseWriter_WriteHeader 200
        (fst (responseWriter_WriteHeader 99 (wrapResponseWriter newResponse))))) = 200"
    by (simp add: wrapResponseWriter_def newResponse_def)
  ultimately show ?thesis using open_ by (simp del: run_all.simps)
qed

lemma run_calls_forwarded:
  "\<not> wroteHeader rw \<Longrightarrow>
     hdr_calls (ResponseWriter (fst (run_calls cs rw))) =
       hdr_calls (ResponseWriter rw) @ take 1 (header_codes cs)"
proof (induction cs arbitrary: rw)
  case Nil
  then show ?case by simp
next
  case (Cons c cs)
  show ?case
  proof (cases c)
    case (CallWriteHeader code)
    obtain rw1 out where first: "responseWriter_WriteHeader code rw = (rw1, out)"
      by (cases "responseWriter_WriteHeader code rw")
    have calls: "hdr_calls (ResponseWriter rw1) = hdr_calls (ResponseWriter rw) @ [code]"
      using responseWriter_WriteHeader_first(3) [OF Cons.prems, of code] first by simp
    show ?thesis
    proof (cases out)
      case Return
      then have "wroteHeader rw1"
        using responseWriter_WriteHeader_first(2) [OF Cons.prems, of code] first by simp
      from run_calls_wroteHeader [OF this, of cs] calls first Return CallWriteHeader
      show ?thesis by simp
    next
      case (Panic v)
      with calls first CallWriteHeader show ?thesis by simp
    qed
  next
    case (CallWrite d)
    have "\<not> wroteHeader (responseWriter_Write d rw)"
      using Cons.prems by (simp add: responseWriter_Write_def)
    from Cons.IH [OF this] CallWrite show ?thesis
      by (simp add: responseWriter_Write_def response_Write_hdr_calls)
  qed
qed

lemma responseWriter_WriteHeader_calls:
  "hdr_calls (ResponseWriter (fst (responseWriter_WriteHeader a rw))) =
     hdr_calls (ResponseWriter rw) @ (if wroteHeader rw then [] else [a])"
proof (cases "wroteHeader rw")
  case True
  then show ?thesis by (simp add: responseWriter_WriteHeader_ignored)
next
  case False
  from responseWriter_WriteHeader_first(3) [OF False, of a] False show ?thesis by simp
qed

lemma responseWriter_WriteHeader_flag:
  "wroteHeader (fst (responseWriter_WriteHeader a rw)) =
     (snd (responseWriter_WriteHeader a rw) = Return)"
proof (cases "wroteHeader rw")
  case True
  then show ?thesis by (simp add: responseWriter_WriteHeader_ignored)
next
  case False
  show ?thesis
    unfolding responseWriter_WriteHeader_open [OF False, of a] using False by simp
qed

lemma responseWriter_WriteHeader_returned:
  "snd (responseWriter_WriteHeader a rw) = Return \<Longrightarrow> wroteHeader (fst (responseWriter_WriteHeader a rw))"
  by (cases "wroteHeader rw")
     (simp_all add: responseWriter_WriteHeader_ignored responseWriter_WriteHeader_first(2))

lemma run_all_forwarded:
  assumes "\<forall>c \<in> set (header_codes cs). 100 \<le> c \<and> c \<le> 999" and "\<not> wroteHeader rw"
  shows "hdr_calls (ResponseWriter (run_all cs rw)) =
           hdr_calls (ResponseWriter rw) @ take 1 (header_codes cs)"
  using assms
proof (induction cs arbitrary: rw)
  case Nil
  then show ?case by simp
next
  case (Cons c cs)
  show ?case
  proof (cases c)
    case (CallWriteHeader code)
    with Cons.prems(1) have valid: "100 \<le> code \<and> code \<le> 999" by simp
    let ?rw1 = "fst (responseWriter_WriteHeader code rw)"
    from responseWriter_WriteHeader_open [OF Cons.prems(2), of code] valid
    have "wroteHeader ?rw1" by simp
    from run_all_wroteHeader [OF this, of cs]
    have "hdr_calls (ResponseWriter (run_all cs ?rw1)) = hdr_calls (ResponseWriter ?rw1)" by simp
    with responseWriter_WriteHeader_calls [of code rw] Cons.prems(2) CallWriteHeader
    show ?thesis by simp
  next
    case (CallWrite d)
    have "\<not> wroteHeader (responseWriter_Write d rw)"
      using Cons.prems(2) by (simp add: responseWriter_Write_def)
    moreover have "\<forall>c \<in> set (header_codes cs). 100 \<le> c \<and> c \<le> 999"
      using Cons.prems(1) CallWrite by simp
    ultimately show ?thesis using Cons.IH [of "responseWriter_Write d rw"] CallWrite
      by (simp add: responseWriter_Write_def response_Write_hdr_calls)
  qed
qed

text \<open>
  C10 fails when the sink rejects a code. On a fresh wrapper \<^verbatim>\<open>WriteHeader(99)\<close> is
  forwarded and panics in the sink, the wrapper stays open, and the \<^verbatim>\<open>WriteHeader(200)\<close>
  of a handler that has recovered is forwarded as well: the sink receives two calls, and
  the captured status changes from 99 to 200.
\<close>

theorem wrapper_forwards_counterexample:
  "hdr_calls (ResponseWriter
     (fst (responseWriter_WriteHeader 200
        (fst (responseWriter_WriteHeader 99 (wrapResponseWriter newResponse)))))) = [99, 200] \<and>
   length (hdr_calls (ResponseWriter
     (run_all [CallWriteHeader 99, CallWriteHeader 200] (wrapResponseWriter newResponse)))) = 2 \<and>
   status (fst (responseWriter_WriteHeader 99 (wrapResponseWriter newResponse))) = 99 \<and>
   status (fst (responseWriter_WriteHeader 200
        (fst (responseWriter_WriteHeader 99 (wrapResponseWriter newResponse))))) = 200"
  by (simp add: responseWriter_WriteHeader_def response_WriteHeader_def wrapResponseWriter_def
        newResponse_def)

text \<open>
  C10, as the code has it. A \<^verbatim>\<open>WriteHeader\<close> call on the wrapper is forwarded to the sink
  exactly when \<open>wroteHeader\<close> is unset, and leaves it set exactly when it returns: a call
  is forwarded until one has returned. After a call that returned,
  whatever calls follow neither reach the sink's \<^verbatim>\<open>WriteHeader\<close> nor change the captured
  status. So a handler whose codes all lie from 100 to 999 has exactly its first
  \<^verbatim>\<open>WriteHeader\<close> forwarded from a fresh wrapper, however it goes on, and so has a handler
  of any codes that a panic of one of its calls ends.
\<close>

theorem wrapper_forwards_one_WriteHeader:
  "hdr_calls (ResponseWriter (fst (responseWriter_WriteHeader a rw))) =
     hdr_calls (ResponseWriter rw) @ (if wroteHeader rw then [] else [a]) \<and>
   wroteHeader (fst (responseWriter_WriteHeader a rw)) =
     (snd (responseWriter_WriteHeader a rw) = Return) \<and>
   (snd (responseWriter_WriteHeader a rw) = Return \<longrightarrow>
      hdr_calls (ResponseWriter (run_all cs (fst (responseWriter_WriteHeader a rw)))) =
        hdr_calls (ResponseWriter (fst (responseWriter_WriteHeader a rw))) \<and>
      status (run_all cs (fst (responseWriter_WriteHeader a rw))) =
        status (fst (responseWriter_WriteHeader a rw))) \<and>
   ((\<forall>c \<in> set (header_codes cs). 100 \<le> c \<and> c \<le> 999) \<longrightarrow>
      hdr_calls (ResponseWriter (run_all cs (wrapResponseWriter w))) =
        hdr_calls w @ take 1 (header_codes cs)) \<and>
   hdr_calls (ResponseWriter (fst (run_calls cs (wrapResponseWriter w)))) =
     hdr_calls w @ take 1 (header_codes cs)"
proof (intro conjI impI)
  show "hdr_calls (ResponseWriter (fst (responseWriter_WriteHeader a rw))) =
     hdr_calls (ResponseWriter rw) @ (if wroteHeader rw then [] else [a])"
    by (rule responseWriter_WriteHeader_calls)
  show "wroteHeader (fst (responseWriter_WriteHeader a rw)) =
     (snd (responseWriter_WriteHeader a rw) = Return)"
    by (rule responseWriter_WriteHeader_flag)
  have fresh: "\<not> wroteHeader (wrapResponseWriter w)"
    by (simp add: wrapResponseWriter_def)
  from run_calls_forwarded [OF fresh, of cs]
  show "hdr_calls (ResponseWriter (fst (run_calls cs (wrapResponseWriter w)))) =
     hdr_calls w @ take 1 (header_codes cs)"
    by (simp add: wrapResponseWriter_def)
  show "hdr_calls (ResponseWriter (run_all cs (wrapResponseWriter w))) =
        hdr_calls w @ take 1 (header_codes cs)"
    if "\<forall>c \<in> set (header_codes cs). 100 \<le> c \<and> c \<le> 999"
    using run_all_forwarded [OF that fresh] by (simp add: wrapResponseWriter_def)
next
  assume "snd (responseWriter_WriteHeader a rw) = Return"
  then have "wroteHeader (fst (responseWriter_WriteHeader a rw))"
    by (rule responseWriter_WriteHeader_returned)
  from run_all_wroteHeader [OF this, of cs]
  show "hdr_calls (ResponseWriter (run_all cs (fst (responseWriter_WriteHeader a rw)))) =
        hdr_calls (ResponseWriter (fst (responseWriter_WriteHeader a rw)))"
    and "status (run_all cs (fst (responseWriter_WriteHeader a rw))) =
        status (fst (responseWriter_WriteHeader a rw))"
    by simp_all
qed

text \<open>
  On a fresh wrapper: after a \<^verbatim>\<open>WriteHeader(404)\<close> that returned, the sink has received 404
  alone whatever follows; of a handler that writes, calls \<^verbatim>\<open>WriteHeader\<close> with 404, 200
  and 500 and writes in between, the sink receives 404 alone.
\<close>

theorem wrapper_forwards_one_WriteHeader_witness:
  "snd (responseWriter_WriteHeader 404 (wrapResponseWriter newResponse)) = Return \<and>
   hdr_calls (ResponseWriter (run_all [CallWriteHeader 200, CallWrite ''b'', CallWriteHeader 500]
      (fst (responseWriter_WriteHeader 404 (wrapResponseWriter newResponse))))) = [404] \<and>
   hdr_calls (ResponseWriter (run_all
       [CallWrite ''a'', CallWriteHeader 404, CallWriteHeader 200, CallWrite ''b'', CallWriteHeader 500]
       (wrapResponseWriter newResponse))) = [404]"
proof -
  let ?cs = "[CallWrite ''a'', CallWriteHeader 404, CallWriteHeader 200, CallWrite ''b'', CallWriteHeader 500]"
  have ret: "snd (responseWriter_WriteHeader 404 (wrapResponseWriter newResponse)) = Return"
    by (simp add: responseWriter_WriteHeader_def response_WriteHeader_def wrapResponseWriter_def
          newResponse_def)
  have first: "hdr_calls (ResponseWriter (fst (responseWriter_WriteHeader 404 (wrapResponseWriter newResponse))))
      = [404]"
    by (simp add: responseWriter_WriteHeader_def response_WriteHeader_def wrapResponseWriter_def
          newResponse_def)
  have valid: "\<forall>c \<in> set (header_codes ?cs). 100 \<le> c \<and> c \<le> 999" by simp
  from wrapper_forwards_one_WriteHeader
         [of 404 "wrapResponseWriter newResponse" "[CallWriteHeader 200, CallWrite ''b'', CallWriteHeader 500]"]
       ret first
  have "hdr_calls (ResponseWriter (run_all [CallWriteHeader 200, CallWrite ''b'', CallWriteHeader 500]
      (fst (responseWriter_WriteHeader 404 (wrapResponseWriter newResponse))))) = [404]"
    by (simp del: run_all.simps)
  moreover from wrapper_forwards_one_WriteHeader [of _ _ ?cs newResponse] valid
  have "hdr_calls (ResponseWriter (run_all ?cs (wrapResponseWriter newResponse))) = [404]"
    by (simp del: run_all.simps add: newResponse_def)
  ultimately show ?thesis using ret by (simp del: run_all.simps)
qed

text \<open>
  The handler of \<^verbatim>\<open>/\<close> writes its body and never calls \<^verbatim>\<open>WriteHeader\<close>: the sink
  fixes status 200, and the wrapper still reports 0.
\<close>

theorem write_without_setStatus_counterexample:
  "responseWriter_Status (fst (rootHandler exampleRequest (wrapResponseWriter newResponse))) = 0 \<and>
   responseWriter_Status (fst (rootHandler exampleRequest (wrapResponseWriter newResponse))) \<noteq> 200 \<and>
   resp_status (ResponseWriter (fst (rootHandler exampleRequest (wrapResponseWriter newResponse)))) = 200"
  by (simp add: rootHandler_def responseWriter_Write_def response_Write_def
        responseWriter_Status_def wrapResponseWriter_def newResponse_def bodyAllowedForStatus_def)

lemma run_Writes:
  "snd (run_calls (map CallWrite ds) rw) = Return \<and>
   status (fst (run_calls (map CallWrite ds) rw)) = status rw \<and>
   wroteHeader (fst (run_calls (map CallWrite ds) rw)) = wroteHeader rw"
proof (induction ds arbitrary: rw)
  case Nil
  then show ?case by simp
next
  case (Cons d ds)
  from Cons [of "responseWriter_Write d rw"] show ?case
    by (simp add: responseWriter_Write_def)
qed

lemma response_Write_status:
  "resp_wroteHeader (response_Write d w) \<and>
   resp_status (response_Write d w) = (if resp_wroteHeader w then resp_status w else 200)"
  by (simp add: response_Write_def Let_def)

lemma run_Writes_sink:
  "ds \<noteq> [] \<Longrightarrow>
     resp_wroteHeader (ResponseWriter (fst (run_calls (map CallWrite ds) rw))) \<and>
     resp_status (ResponseWriter (fst (run_calls (map CallWrite ds) rw))) =
       (if resp_wroteHeader (ResponseWriter rw) then resp_status (ResponseWriter rw) else 200)"
proof (induction ds arbitrary: rw)
  case Nil
  then show ?case by simp
next
  case (Cons d ds)
  show ?case
  proof (cases "ds = []")
    case True
    then show ?thesis
      by (simp add: responseWriter_Write_def response_Write_status)
  next
    case False
    from Cons.IH [OF False, of "responseWriter_Write d rw"] show ?thesis
      by (simp add: responseWriter_Write_def response_Write_status)
  qed
qed

text \<open>
  C7, as the code has it. A handler that only writes body bytes leaves the wrapper as it
  was made: \<^verbatim>\<open>Status()\<close> returns 0 and \<open>wroteHeader\<close> is false, while the sink behind it has
  fixed its status, 200 unless one was fixed before.
\<close>

theorem write_without_setStatus:
  assumes "ds \<noteq> []"
  shows "responseWriter_Status (fst (run_calls (map CallWrite ds) (wrapResponseWriter w))) = 0 \<and>
         \<not> wroteHeader (fst (run_calls (map CallWrite ds) (wrapResponseWriter w))) \<and>
         resp_status (ResponseWriter (fst (run_calls (map CallWrite ds) (wrapResponseWriter w)))) =
           (if resp_wroteHeader w then resp_status w else 200)"
proof -
  have "status (fst (run_calls (map CallWrite ds) (wrapResponseWriter w))) = 0 \<and>
        \<not> wroteHeader (fst (run_calls (map CallWrite ds) (wrapResponseWriter w)))"
    using run_Writes [of ds "wrapResponseWriter w"] by (simp add: wrapResponseWriter_def)
  moreover have "resp_status (ResponseWriter (fst (run_calls (map CallWrite ds) (wrapResponseWriter w)))) =
           (if resp_wroteHeader w then resp_status w else 200)"
    using run_Writes_sink [OF assms, of "wrapResponseWriter w"]
    by (simp add: wrapResponseWriter_def)
  ultimately show ?thesis
    by (simp add: responseWriter_Status_def)
qed

theorem write_without_setStatus_witness:
  "[''WORKING''] \<noteq> [] \<and>
   responseWriter_Status (fst (run_calls (map CallWrite [''WORKING'']) (wrapResponseWriter newResponse))) = 0 \<and>
   resp_status (ResponseWriter (fst (run_calls (map CallWrite [''WORKING'']) (wrapResponseWriter newResponse)))) = 200"
  using write_without_setStatus [of "[''WORKING'']" newResponse]
  by (simp add: newResponse_def)

section \<open>Properties of the JSON encoding\<close>

declare unescape.simps [simp del]

lemma unescape_plain:
  "c \<noteq> CHR 0x5C \<Longrightarrow> c \<noteq> CHR 0x22 \<Longrightarrow> 0x20 \<le> (of_char c :: nat) \<Longrightarrow>
     unescape (c # t) = map_option ((#) c) (unescape t)"
  by (simp add: unescape.simps)

lemma unescape_safe:
  "htmlSafeSet c \<Longrightarrow> unescape (c # t) = map_option ((#) c) (unescape t)"
  by (rule unescape_plain) (simp_all add: htmlSafeSet_def)

lemma unescape_high:
  "\<forall>b \<in> set bs. 0x80 \<le> (of_char b :: nat) \<Longrightarrow>
     unescape (bs @ t) = map_option ((@) bs) (unescape t)"
proof (induction bs)
  case Nil
  then show ?case by (simp add: option.map_ident)
next
  case (Cons b bs)
  then have hi: "0x80 \<le> (of_char b :: nat)" by simp
  have "b \<noteq> CHR 0x5C" "b \<noteq> CHR 0x22" "0x20 \<le> (of_char b :: nat)"
    using hi by auto
  then have "unescape (b # bs @ t) = map_option ((#) b) (unescape (bs @ t))"
    by (rule unescape_plain)
  with Cons show ?case
    by (simp add: option.map_comp comp_def)
qed

lemma hexDigit_hex: "d < 16 \<Longrightarrow> hexDigit (hex ! d) = Some d"
proof -
  assume "d < 16"
  then have "d = 0 \<or> d = 1 \<or> d = 2 \<or> d = 3 \<or> d = 4 \<or> d = 5 \<or> d = 6 \<or> d = 7 \<or> d = 8 \<or>
             d = 9 \<or> d = 10 \<or> d = 11 \<or> d = 12 \<or> d = 13 \<or> d = 14 \<or> d = 15"
    by arith
  then show ?thesis
    by (elim disjE) (simp_all add: hex_def hexDigit_def)
qed

lemma unescape_u:
  "unescape (CHR 0x5C # CHR ''u'' # a # b # x # y # t) =
     (case hex4 [a, b, x, y] of
        None \<Rightarrow> None
      | Some r \<Rightarrow>
          if 0xD800 \<le> r \<and> r < 0xE000 then None
          else map_option ((@) (EncodeRune r)) (unescape t))"
  by (simp add: unescape.simps del: hex4.simps split: option.split)

lemma append_single: "(@) [c] = (#) c"
  by (rule ext) simp

lemma unescape_u00:
  assumes "(of_char c :: nat) < 0x80"
  shows "unescape (CHR 0x5C # ''u00'' @ [hex ! (of_char c div 16), hex ! (of_char c mod 16)] @ t) =
           map_option ((#) c) (unescape t)"
proof -
  let ?n = "of_char c :: nat"
  have d: "?n div 16 < 16" "?n mod 16 < 16" using assms by auto
  have "hexDigit (CHR ''0'') = Some 0"
    by (simp add: hexDigit_def)
  then have h4: "hex4 [CHR ''0'', CHR ''0'', hex ! (?n div 16), hex ! (?n mod 16)] = Some ?n"
    by (simp add: hexDigit_hex [OF d(1)] hexDigit_hex [OF d(2)])
  have enc: "EncodeRune ?n = [c]"
    using assms by (simp add: EncodeRune_def)
  have "unescape (CHR 0x5C # CHR ''u'' # CHR ''0'' # CHR ''0'' # hex ! (?n div 16) # hex ! (?n mod 16) # t)
          = map_option ((@) [c]) (unescape t)"
    unfolding unescape_u h4 using assms enc by simp
  then show ?thesis
    by (simp add: append_single)
qed

lemma unescape_escapeByte:
  assumes "(of_char c :: nat) < 0x80"
  shows "unescape (escapeByte c @ t) = map_option ((#) c) (unescape t)"
proof -
  consider "c = CHR 0x5C \<or> c = CHR 0x22" | "c = CHR 0x0A" | "c = CHR 0x0D" | "c = CHR 0x09"
    | "c \<noteq> CHR 0x5C" "c \<noteq> CHR 0x22" "c \<noteq> CHR 0x0A" "c \<noteq> CHR 0x0D" "c \<noteq> CHR 0x09"
    by blast
  then show ?thesis
  proof cases
    case 1
    then show ?thesis by (auto simp: escapeByte_def unescape.simps)
  next
    case 2
    then show ?thesis by (simp add: escapeByte_def unescape.simps)
  next
    case 3
    then show ?thesis by (simp add: escapeByte_def unescape.simps)
  next
    case 4
    then show ?thesis by (simp add: escapeByte_def unescape.simps)
  next
    case 5
    then have "escapeByte c = CHR 0x5C # ''u00'' @ [hex ! (of_char c div 16), hex ! (of_char c mod 16)]"
      by (simp add: escapeByte_def)
    with unescape_u00 [OF assms, of t] show ?thesis by simp
  qed
qed

lemma unescape_ufffd:
  "unescape ((CHR 0x5C # ''ufffd'') @ t) = map_option ((@) (EncodeRune RuneError)) (unescape t)"
  by (simp add: unescape.simps hexDigit_def RuneError_def)

lemma accept_range: "0x80 \<le> accept_lo s0 \<and> accept_hi s0 \<le> 0xBF"
  by (simp add: accept_lo_def accept_hi_def)

lemma take2: "1 \<le> length s \<Longrightarrow> take 2 (c # s) = [c, s ! 0]"
  by (cases s) simp_all

lemma take3: "2 \<le> length s \<Longrightarrow> take 3 (c # s) = [c, s ! 0, s ! 1]"
  by (cases s; cases "tl s") simp_all

lemma take4: "3 \<le> length s \<Longrightarrow> take 4 (c # s) = [c, s ! 0, s ! 1, s ! 2]"
  by (cases s; cases "tl s"; cases "tl (tl s)") simp_all

text \<open>The three shapes of a valid sequence that starts with a byte of 0x80 or more.\<close>

lemma DecodeRuneInString_shape:
  assumes dec: "DecodeRuneInString (c # s) = (r, n)"
      and hi: "0x80 \<le> (of_char c :: nat)"
      and ok: "\<not> (r = RuneError \<and> n = 1)"
  obtains
    (two) "n = 2" "1 \<le> length s" "(of_char c :: nat) < 0xE0"
      "r = (of_char c mod 32) * 64 + of_char (s ! 0) mod 64"
      "0x80 \<le> (of_char (s ! 0) :: nat)"
  | (three) "n = 3" "2 \<le> length s" "0xE0 \<le> (of_char c :: nat)" "(of_char c :: nat) < 0xF0"
      "r = (of_char c mod 16) * 4096 + (of_char (s ! 0) mod 64) * 64 + of_char (s ! 1) mod 64"
      "0x80 \<le> (of_char (s ! 0) :: nat)" "(of_char (s ! 0) :: nat) \<le> 0xBF"
      "0x80 \<le> (of_char (s ! 1) :: nat)" "(of_char (s ! 1) :: nat) \<le> 0xBF"
  | (four) "n = 4" "3 \<le> length s" "0xF0 \<le> (of_char c :: nat)" "(of_char c :: nat) \<le> 0xF4"
      "r = (of_char c mod 8) * 262144 + (of_char (s ! 0) mod 64) * 4096
             + (of_char (s ! 1) mod 64) * 64 + of_char (s ! 2) mod 64"
      "accept_lo (of_char c) \<le> (of_char (s ! 0) :: nat)"
      "0x80 \<le> (of_char (s ! 0) :: nat)" "(of_char (s ! 0) :: nat) \<le> 0xBF"
      "0x80 \<le> (of_char (s ! 1) :: nat)" "0x80 \<le> (of_char (s ! 2) :: nat)"
proof -
  let ?s0 = "of_char c :: nat"
  let ?sz = "first_size ?s0"
  let ?s1 = "of_char (s ! 0) :: nat"
  let ?s2 = "of_char (s ! 1) :: nat"
  let ?s3 = "of_char (s ! 2) :: nat"
  note defs = DecodeRuneInString.simps Let_def
  have a: "\<not> (?s0 < 0xC2 \<or> 0xF4 < ?s0)"
    using dec hi ok by (auto simp: defs)
  have b: "\<not> length (c # s) < ?sz"
    using dec hi ok a by (auto simp: defs)
  have c1: "\<not> (?s1 < accept_lo ?s0 \<or> accept_hi ?s0 < ?s1)"
    using dec hi ok a b by (auto simp: defs)
  then have s1: "0x80 \<le> ?s1" "?s1 \<le> 0xBF" using accept_range [of ?s0] by linarith+
  show thesis
  proof (cases "?sz \<le> 2")
    case True
    then have "n = 2" "r = (?s0 mod 32) * 64 + ?s1 mod 64"
      using dec hi a b c1 by (auto simp: defs)
    moreover have "1 \<le> length s" "?s0 < 0xE0"
      using b True by (auto simp: first_size_def Suc_le_eq split: if_splits)
    ultimately show thesis using s1 by (intro two) simp_all
  next
    case sz2: False
    have c2: "\<not> (?s2 < 0x80 \<or> 0xBF < ?s2)"
      using dec hi ok a b c1 sz2 by (auto simp: defs)
    show thesis
    proof (cases "?sz \<le> 3")
      case True
      then have "n = 3" "r = (?s0 mod 16) * 4096 + (?s1 mod 64) * 64 + ?s2 mod 64"
        using dec hi a b c1 c2 sz2 by (auto simp: defs)
      moreover have "2 \<le> length s" "0xE0 \<le> ?s0" "?s0 < 0xF0" 
        using b True sz2 by (auto simp: first_size_def split: if_splits)
      ultimately show thesis using s1 c2 by (intro three) simp_all
    next
      case sz3: False
      have c3: "\<not> (?s3 < 0x80 \<or> 0xBF < ?s3)"
        using dec hi ok a b c1 c2 sz2 sz3 by (auto simp: defs)
      have "n = 4" "r = (?s0 mod 8) * 262144 + (?s1 mod 64) * 4096 + (?s2 mod 64) * 64 + ?s3 mod 64"
        using dec hi a b c1 c2 c3 sz2 sz3 by (auto simp: defs)
      moreover have "3 \<le> length s" "0xF0 \<le> ?s0" "?s0 \<le> 0xF4"
        using a b sz2 sz3 by (auto simp: first_size_def split: if_splits)
      ultimately show thesis using s1 c1 c2 c3 by (intro four) simp_all
    qed
  qed
qed

lemma DecodeRuneInString_valid:
  assumes dec: "DecodeRuneInString (c # s) = (r, n)"
      and hi: "0x80 \<le> (of_char c :: nat)"
      and ok: "\<not> (r = RuneError \<and> n = 1)"
  shows "n \<le> length (c # s) \<and> (\<forall>b \<in> set (take n (c # s)). 0x80 \<le> (of_char b :: nat))"
  using dec hi ok
proof (cases rule: DecodeRuneInString_shape)
  case two
  have "take n (c # s) = [c, s ! 0]" unfolding two(1) by (rule take2 [OF two(2)])
  then show ?thesis using two hi by simp
next
  case three
  have "take n (c # s) = [c, s ! 0, s ! 1]" unfolding three(1) by (rule take3 [OF three(2)])
  then show ?thesis using three hi by simp
next
  case four
  have "take n (c # s) = [c, s ! 0, s ! 1, s ! 2]" unfolding four(1) by (rule take4 [OF four(2)])
  then show ?thesis using four hi by simp
qed

lemma mod_shift:
  fixes a :: nat
  assumes "q * m \<le> a" "a < q * m + m"
  shows "a mod m = a - q * m"
proof -
  have "a = q * m + (a - q * m)" using assms by simp
  then have "a mod m = (q * m + (a - q * m)) mod m" by simp
  also have "\<dots> = (a - q * m) mod m" by (simp only: mod_mult_self3)
  also have "\<dots> = a - q * m" using assms by simp
  finally show ?thesis .
qed

lemma radix_unique:
  fixes x y z k :: nat
  assumes "y < 64" "z < 64" "x * 4096 + y * 64 + z = 8232 + k" "k \<le> 1"
  shows "x = 2 \<and> y = 0 \<and> z = 40 + k"
proof -
  have low: "y * 64 + z < 4096" using assms(1,2) by simp
  have "(x * 4096 + (y * 64 + z)) div 4096 = x"
    using low by simp
  moreover have "(8232 + k) div 4096 = 2" using assms(4) by simp
  ultimately have x: "x = 2" using assms(3) by (simp add: add.assoc)
  with assms(3) have rest: "y * 64 + z = 40 + k" by simp
  have "(y * 64 + z) div 64 = y" using assms(2) by simp
  moreover have "(40 + k) div 64 = 0" using assms(4) by simp
  ultimately have y: "y = 0" using rest by simp
  with rest x show ?thesis by simp
qed

lemma DecodeRuneInString_separator:
  assumes dec: "DecodeRuneInString (c # s) = (r, n)"
      and hi: "0x80 \<le> (of_char c :: nat)"
      and r: "r = 0x2028 + k" and k: "k \<le> 1"
  shows "n = 3 \<and> take n (c # s) = EncodeRune r"
proof -
  have ok: "\<not> (r = RuneError \<and> n = 1)" using r k by (simp add: RuneError_def)
  from dec hi ok show ?thesis
  proof (cases rule: DecodeRuneInString_shape)
    case two
    have "of_char c mod 32 < (32::nat)" "of_char (s ! 0) mod 64 < (64::nat)" by simp_all
    then have "r < 2048" unfolding two(4) by linarith
    with r show ?thesis by simp
  next
    case three
    let ?a = "of_char c :: nat" and ?b = "of_char (s ! 0) :: nat" and ?c = "of_char (s ! 1) :: nat"
    have ma: "?a mod 16 = ?a - 224" using mod_shift [of 14 16 ?a] three(3,4) by simp
    have mb: "?b mod 64 = ?b - 128" using mod_shift [of 2 64 ?b] three(6,7) by simp
    have mc: "?c mod 64 = ?c - 128" using mod_shift [of 2 64 ?c] three(8,9) by simp
    have "(?a - 224) * 4096 + (?b - 128) * 64 + (?c - 128) = 8232 + k"
      using three(5) r ma mb mc by simp
    moreover have "?b - 128 < 64" "?c - 128 < 64" using three(7,9) by simp_all
    ultimately have "?a - 224 = 2 \<and> ?b - 128 = 0 \<and> ?c - 128 = 40 + k"
      using k by (intro radix_unique) simp_all
    then have v: "?a = 226" "?b = 128" "?c = 168 + k"
      using three(3,6,8) by arith+
    have "c = char_of ?a" "s ! 0 = char_of ?b" "s ! 1 = char_of ?c" by simp_all
    then have bytes: "[c, s ! 0, s ! 1] = [char_of (226::nat), char_of (128::nat), char_of (168 + k)]"
      unfolding v by simp
    have "EncodeRune r = [char_of (226::nat), char_of (128::nat), char_of (168 + k)]"
    proof -
      have "k = 0 \<or> k = 1" using k by arith
      then have "r div 4096 = 2 \<and> (r div 64) mod 64 = 0 \<and> r mod 64 = 40 + k"
        using r by (elim disjE) simp_all
      then show ?thesis using r by (simp add: EncodeRune_def)
    qed
    moreover have "take n (c # s) = [c, s ! 0, s ! 1]"
      unfolding three(1) by (rule take3 [OF three(2)])
    ultimately show ?thesis using three(1) bytes by simp
  next
    case four
    let ?a = "of_char c :: nat" and ?b = "of_char (s ! 0) :: nat"
    have "65536 \<le> r"
    proof (cases "?a = 0xF0")
      case True
      then have lo: "0x90 \<le> ?b" using four(6) by (simp add: accept_lo_def)
      have "16 \<le> ?b mod 64"
        using lo four(8) mod_shift [of 2 64 ?b] by simp
      then have "16 * 4096 \<le> (?b mod 64) * 4096" by simp
      then show ?thesis unfolding four(5) by simp
    next
      case False
      with four(3,4) have "?a mod 8 = ?a - 240" "241 \<le> ?a"
        using mod_shift [of 30 8 ?a] by simp_all
      then have "1 * 262144 \<le> (?a mod 8) * 262144" by simp
      then show ?thesis unfolding four(5) by simp
    qed
    with r k show ?thesis by simp
  qed
qed

lemma unescape_separator:
  assumes "r = 0x2028 + k" "k \<le> 1"
  shows "unescape ((CHR 0x5C # ''u202'') @ [hex ! (r mod 16)] @ t) =
           map_option ((@) (EncodeRune r)) (unescape t)"
proof -
  have "k = 0 \<or> k = 1" using assms(2) by arith
  then have m: "r mod 16 = 8 + k" using assms(1) by (elim disjE) simp_all
  have "hexDigit (hex ! (8 + k)) = Some (8 + k)"
    using assms(2) by (intro hexDigit_hex) simp
  moreover have "hexDigit (CHR ''2'') = Some 2" "hexDigit (CHR ''0'') = Some 0"
    by (simp_all add: hexDigit_def)
  ultimately have h4: "hex4 [CHR ''2'', CHR ''0'', CHR ''2'', hex ! (r mod 16)] = Some r"
    using assms(1) m by simp
  have "unescape (CHR 0x5C # CHR ''u'' # CHR ''2'' # CHR ''0'' # CHR ''2'' # hex ! (r mod 16) # t) =
          map_option ((@) (EncodeRune r)) (unescape t)"
    unfolding unescape_u h4 using assms by simp
  then show ?thesis by simp
qed

lemma encodeString_high:
  "\<not> (of_char c :: nat) < 0x80 \<Longrightarrow> DecodeRuneInString (c # s) = (r, n) \<Longrightarrow>
     encodeString (c # s) =
       (if r = RuneError \<and> n = 1 then
          (CHR 0x5C # ''ufffd'') @ encodeString (drop n (c # s))
        else if r = 0x2028 \<or> r = 0x2029 then
          (CHR 0x5C # ''u202'') @ [hex ! (r mod 16)] @ encodeString (drop n (c # s))
        else take n (c # s) @ encodeString (drop n (c # s)))"
  by simp

lemma coerceUTF8_high:
  "\<not> (of_char c :: nat) < 0x80 \<Longrightarrow> DecodeRuneInString (c # s) = (r, n) \<Longrightarrow>
     coerceUTF8 (c # s) =
       (if r = RuneError \<and> n = 1 then EncodeRune RuneError @ coerceUTF8 (drop n (c # s))
        else take n (c # s) @ coerceUTF8 (drop n (c # s)))"
  by simp

lemma unescape_encodeString: "unescape (encodeString s) = Some (coerceUTF8 s)"
proof (induction s rule: encodeString.induct)
  case 1
  show ?case by (simp add: unescape.simps)
next
  case (2 c s)
  show ?case
  proof (cases "(of_char c :: nat) < 0x80")
    case ascii: True
    show ?thesis
    proof (cases "htmlSafeSet c")
      case True
      with ascii "2.IH"(1) show ?thesis by (simp add: unescape_safe)
    next
      case False
      with ascii "2.IH"(2) show ?thesis by (simp add: unescape_escapeByte)
    qed
  next
    case high: False
    obtain r n where dec: "DecodeRuneInString (c # s) = (r, n)"
      by (cases "DecodeRuneInString (c # s)")
    have hi: "0x80 \<le> (of_char c :: nat)" using high by simp
    show ?thesis
    proof (cases "r = RuneError \<and> n = 1")
      case True
      then have r: "r = RuneError" and n: "n = 1" by simp_all
      have ih: "unescape (encodeString (drop n (c # s))) = Some (coerceUTF8 (drop n (c # s)))"
        using "2.IH"(3) [OF high dec [symmetric] True] .
      have "encodeString (c # s) = (CHR 0x5C # ''ufffd'') @ encodeString (drop n (c # s))"
        using True by (simp add: encodeString_high [OF high dec] del: encodeString.simps)
      moreover have "coerceUTF8 (c # s) = EncodeRune RuneError @ coerceUTF8 (drop n (c # s))"
        using True by (simp add: coerceUTF8_high [OF high dec] del: coerceUTF8.simps)
      ultimately show ?thesis
        using unescape_ufffd [of "encodeString (drop n (c # s))"] ih by simp
    next
      case valid: False
      show ?thesis
      proof (cases "r = 0x2028 \<or> r = 0x2029")
        case True
        then obtain k where k: "r = 0x2028 + k" "k \<le> 1" by (auto intro: that [of 0] that [of 1])
        have bytes: "take n (c # s) = EncodeRune r"
          by (rule DecodeRuneInString_separator [OF dec hi k, THEN conjunct2])
        have ih: "unescape (encodeString (drop n (c # s))) = Some (coerceUTF8 (drop n (c # s)))"
          using "2.IH"(4) [OF high dec [symmetric] valid True] .
        have "encodeString (c # s) =
                (CHR 0x5C # ''u202'') @ [hex ! (r mod 16)] @ encodeString (drop n (c # s))"
          by (simp only: encodeString_high [OF high dec] valid True if_False if_True)
        moreover have "coerceUTF8 (c # s) = EncodeRune r @ coerceUTF8 (drop n (c # s))"
          by (simp only: coerceUTF8_high [OF high dec] valid bytes if_False)
        ultimately show ?thesis
          using unescape_separator [OF k, of "encodeString (drop n (c # s))"] ih by simp
      next
        case False
        have ih: "unescape (encodeString (drop n (c # s))) = Some (coerceUTF8 (drop n (c # s)))"
          using "2.IH"(5) [OF high dec [symmetric] valid False] .
        from DecodeRuneInString_valid [OF dec hi valid]
        have "\<forall>b \<in> set (take n (c # s)). 0x80 \<le> (of_char b :: nat)" by simp
        from unescape_high [OF this, of "encodeString (drop n (c # s))"] ih
        have "unescape (take n (c # s) @ encodeString (drop n (c # s))) =
                Some (take n (c # s) @ coerceUTF8 (drop n (c # s)))"
          by simp
        moreover have "encodeString (c # s) = take n (c # s) @ encodeString (drop n (c # s))"
          by (simp only: encodeString_high [OF high dec] valid False if_False)
        moreover have "coerceUTF8 (c # s) = take n (c # s) @ coerceUTF8 (drop n (c # s))"
          by (simp only: coerceUTF8_high [OF high dec] valid if_False)
        ultimately show ?thesis by simp
      qed
    qed
  qed
qed

lemma coerceUTF8_valid: "ValidString s \<Longrightarrow> coerceUTF8 s = s"
proof (induction s rule: coerceUTF8.induct)
  case 1
  show ?case by simp
next
  case (2 c s)
  show ?case
  proof (cases "(of_char c :: nat) < 0x80")
    case True
    with 2 show ?thesis by simp
  next
    case high: False
    obtain r n where dec: "DecodeRuneInString (c # s) = (r, n)"
      by (cases "DecodeRuneInString (c # s)")
    from "2.prems" high dec have valid: "\<not> (r = RuneError \<and> n = 1)"
      and rest: "ValidString (drop n (c # s))"
      by (auto split: if_splits)
    from "2.IH"(3) [OF high dec [symmetric] valid rest]
    have "coerceUTF8 (drop n (c # s)) = drop n (c # s)" .
    then have "coerceUTF8 (c # s) = take n (c # s) @ drop n (c # s)"
      by (simp only: coerceUTF8_high [OF high dec] valid if_False)
    then show ?thesis by (simp only: append_take_drop_id)
  qed
qed

lemma errorHandler_Write:
  \<open>errorHandler w err =
     responseWriter_Write (''{"error":'' @ stringEncoder (error_Error err) @ ''}'' @ [CHR 0x0A]) w\<close>
  by (cases err)
     (simp_all add: errorHandler_def Encode_JSONError_def Marshal_JSONError_def structEncoder_def
        quote_def)

lemma unquote_quote: "unquote (quote e) = unescape e"
  by (simp add: unquote_def quote_def butlast_append)

lemma framed:
  assumes "length p = 9" "length t = 2"
  shows "11 \<le> length (p @ q @ t) \<and> take 9 (p @ q @ t) = p \<and>
         drop (length (p @ q @ t) - 2) (p @ q @ t) = t \<and>
         take (length (p @ q @ t) - 11) (drop 9 (p @ q @ t)) = q"
  using assms by simp

lemma readEnvelope_envelope:
  \<open>readEnvelope (''{"error":'' @ quote e @ ''}'' @ [CHR 0x0A]) = unescape e\<close>
proof -
  have p: \<open>length ''{"error":'' = 9\<close> and t: \<open>length (''}'' @ [CHR 0x0A]) = 2\<close> by simp_all
  from framed [OF p t, of "quote e"] show ?thesis
    unfolding readEnvelope_def by (simp only: unquote_quote if_True simp_thms)
qed

text \<open>
  C5 fails at an error whose message is empty: the body is \<^verbatim>\<open>{"error":""}\<close> and the string
  in it is empty.
\<close>

theorem error_envelope_counterexample:
  \<open>resp_body (ResponseWriter (errorHandler (wrapResponseWriter newResponse) (OtherError []))) =
      ''{"error":""}'' @ [CHR 0x0A] \<and>
    readEnvelope (''{"error":""}'' @ [CHR 0x0A]) = Some []\<close>
  by (simp add: errorHandler_Write responseWriter_Write_def response_Write_def
        wrapResponseWriter_def newResponse_def bodyAllowedForStatus_def stringEncoder_def quote_def
        readEnvelope_def unquote_def unescape.simps)

text \<open>
  C5, as the code has it. For every error, \<^verbatim>\<open>errorHandler\<close> makes one \<^verbatim>\<open>Write\<close>, of the text
  of a JSON object with the one member \<^verbatim>\<open>error\<close> and a newline; the string of that member
  reads back as the message of the error with every invalid UTF-8 byte replaced by U+FFFD,
  so as the message itself when that is valid UTF-8, and it is empty exactly when the
  message is.
\<close>

theorem error_envelope_json:
  \<open>errorHandler w err =
      responseWriter_Write (''{"error":'' @ stringEncoder (error_Error err) @ ''}'' @ [CHR 0x0A]) w \<and>
    readEnvelope (''{"error":'' @ stringEncoder (error_Error err) @ ''}'' @ [CHR 0x0A]) =
      Some (coerceUTF8 (error_Error err)) \<and>
    (ValidString (error_Error err) \<longrightarrow> coerceUTF8 (error_Error err) = error_Error err) \<and>
    (coerceUTF8 (error_Error err) = [] \<longleftrightarrow> error_Error err = [])\<close>
proof (intro conjI impI)
  show \<open>errorHandler w err =
      responseWriter_Write (''{"error":'' @ stringEncoder (error_Error err) @ ''}'' @ [CHR 0x0A]) w\<close>
    by (rule errorHandler_Write)
  show \<open>readEnvelope (''{"error":'' @ stringEncoder (error_Error err) @ ''}'' @ [CHR 0x0A]) =
      Some (coerceUTF8 (error_Error err))\<close>
    unfolding stringEncoder_def readEnvelope_envelope by (rule unescape_encodeString)
  show "coerceUTF8 (error_Error err) = error_Error err" if "ValidString (error_Error err)"
    using that by (rule coerceUTF8_valid)
  show "coerceUTF8 (error_Error err) = [] \<longleftrightarrow> error_Error err = []"
  proof (cases "error_Error err")
    case Nil
    then show ?thesis by simp
  next
    case (Cons c s)
    obtain r n where dec: "DecodeRuneInString (c # s) = (r, n)"
      by (cases "DecodeRuneInString (c # s)")
    from DecodeRuneInString_size [OF dec] have "take n (c # s) \<noteq> []" by auto
    then have "coerceUTF8 (c # s) \<noteq> []"
      using dec by (auto simp: EncodeRune_def RuneError_def)
    with Cons show ?thesis by simp
  qed
qed

text \<open>
  The message \<^verbatim>\<open>access denied\<close> is valid UTF-8 and is read back from its envelope.
\<close>

theorem error_envelope_json_witness:
  \<open>ValidString ''access denied'' \<and>
    readEnvelope (''{"error":'' @ stringEncoder ''access denied'' @ ''}'' @ [CHR 0x0A]) =
      Some ''access denied'' \<and>
    stringEncoder ''access denied'' = ''"access denied"''\<close>
proof -
  have v: "ValidString ''access denied''" by simp
  have e: "error_Error (OtherError ''access denied'') = ''access denied''" by simp
  note t = error_envelope_json [of "wrapResponseWriter newResponse" "OtherError ''access denied''"]
  from t v e have "coerceUTF8 ''access denied'' = ''access denied''" by metis
  with t e have \<open>readEnvelope (''{"error":'' @ stringEncoder ''access denied'' @ ''}'' @ [CHR 0x0A]) =
      Some ''access denied''\<close> by metis
  moreover have \<open>stringEncoder ''access denied'' = ''"access denied"''\<close>
    by (simp add: stringEncoder_def quote_def htmlSafeSet_def)
  ultimately show ?thesis using v by blast
qed

section \<open>Properties of the logging middleware\<close>

lemma response_WriteHeader_500:
  "response_WriteHeader 500 w =
     (if resp_wroteHeader w then w\<lparr>hdr_calls := hdr_calls w @ [500]\<rparr>
      else w\<lparr>hdr_calls := hdr_calls w @ [500], resp_wroteHeader := True, resp_status := 500\<rparr>,
      Return)"
  by (simp add: response_WriteHeader_def Let_def)

lemma deferred_Return: "deferred Return s = (s, Return)"
  by (simp add: deferred_def)

lemma deferred_PanicNil: "deferred (Panic PanicNil) s = (s, Return)"
  by (simp add: deferred_def)

lemma deferred_PanicWith:
  \<open>deferred (Panic (PanicWith v)) s =
     ((fst (response_WriteHeader 500 (fst s)), snd s @ [''{"err"}'']), Return)\<close>
  by (simp add: deferred_def response_WriteHeader_500)

lemma deferred_returns: "snd (deferred out s) = Return"
proof (cases out)
  case Return
  then show ?thesis by (simp add: deferred_Return)
next
  case (Panic v)
  then show ?thesis
    by (cases v) (simp_all add: deferred_PanicNil deferred_PanicWith)
qed

lemma loggingMiddleware_returns: "snd (loggingMiddleware fe h el r s) = Return"
  by (simp add: loggingMiddleware_def Let_def deferred_returns
        split: prod.splits outcome.splits sum.splits)

lemma loggingMiddleware_Return:
  assumes "h r (wrapResponseWriter (fst s)) = (w', Return)"
      and "fe (real_of_int el / 1000000000) = Some d"
  shows "loggingMiddleware fe h el r s =
           ((ResponseWriter w',
             snd s @ [structEncoder (fields_HTTPRequestInfo
                \<lparr>Method = req_Method r, URL = req_URL r, Referer = req_Referer r,
                 UserAgent = req_UserAgent r, Status = 0,
                 Duration = real_of_int el / 1000000000\<rparr> d)]), Return)"
  using assms
  by (simp add: loggingMiddleware_def Let_def Marshal_HTTPRequestInfo_def deferred_Return)

lemma loggingMiddleware_Marshal_fails:
  assumes "h r (wrapResponseWriter (fst s)) = (w', Return)"
      and "fe (real_of_int el / 1000000000) = None"
  shows "loggingMiddleware fe h el r s =
           ((fst (response_WriteHeader 500 (ResponseWriter w')), snd s), Return)"
  using assms
  by (simp add: loggingMiddleware_def Let_def Marshal_HTTPRequestInfo_def deferred_Return
        response_WriteHeader_500)

lemma loggingMiddleware_PanicWith:
  assumes "h r (wrapResponseWriter (fst s)) = (w', Panic (PanicWith v))"
  shows \<open>loggingMiddleware fe h el r s =
           ((fst (response_WriteHeader 500 (ResponseWriter w')), snd s @ [''{"err"}'']), Return)\<close>
  using assms
  by (simp add: loggingMiddleware_def Let_def deferred_PanicWith)

lemma loggingMiddleware_PanicNil:
  assumes "h r (wrapResponseWriter (fst s)) = (w', Panic PanicNil)"
  shows "loggingMiddleware fe h el r s = ((ResponseWriter w', snd s), Return)"
  using assms
  by (simp add: loggingMiddleware_def Let_def deferred_PanicNil)

lemma Marshal_not_err:
  \<open>Marshal_HTTPRequestInfo fe info \<noteq> Inr ''{"err"}''\<close>
  by (cases "fe (Duration info)")
     (simp_all add: Marshal_HTTPRequestInfo_def structEncoder_def fields_HTTPRequestInfo_def
        quote_def)

text \<open>
  C1, at a handler that answers 404 and returns. The wrapper has captured 404, and the
  line the middleware logs says \<^verbatim>\<open>"status":0\<close>: \<open>info.Status\<close> is never assigned, and
  \<^verbatim>\<open>Status()\<close> is never called.
\<close>

theorem logged_status_is_zero:
  \<open>responseWriter_Status
      (fst (scripted [CallWriteHeader 404] Return exampleRequest (wrapResponseWriter newResponse))) = 404 \<and>
    snd (fst (loggingMiddleware exampleFloatEncoder (scripted [CallWriteHeader 404] Return)
                2500000 exampleRequest (newResponse, []))) =
     [''{"method":"GET","url":"/","referer":"","userAgent":"curl/7.68.0","status":0,"duration":0.0025}'']\<close>
  by (simp add: loggingMiddleware_def Let_def Marshal_HTTPRequestInfo_def deferred_Return
       exampleFloatEncoder_def scripted_def responseWriter_WriteHeader_def response_WriteHeader_def
       wrapResponseWriter_def newResponse_def exampleRequest_def structEncoder_def
       fields_HTTPRequestInfo_def stringEncoder_def quote_def htmlSafeSet_def itoa_def
       digits.simps digit_char_def responseWriter_Status_def)

text \<open>
  C2 fails when the handler panics: the log gets the line \<^verbatim>\<open>{"err"}\<close> and nothing else,
  and no request record serialises to that line.
\<close>

theorem one_record_per_request_counterexample:
  \<open>snd (fst (loggingMiddleware exampleFloatEncoder (scripted [] (Panic (PanicWith ''boom'')))
                2500000 exampleRequest (newResponse, []))) = [''{"err"}''] \<and>
    \<not> (\<exists>fe info. Marshal_HTTPRequestInfo fe info = Inr ''{"err"}'')\<close>
  by (simp add: loggingMiddleware_def Let_def deferred_PanicWith scripted_def Marshal_not_err)

text \<open>
  C2, as the code has it. A request whose handler returns normally, its record
  serialised, adds exactly one line to the log: the serialisation of the record the
  middleware has built, with the method, URL, referer and user agent of the request, the
  status 0 and the elapsed seconds. A request whose handler panics with a value other than
  \<^verbatim>\<open>nil\<close> adds exactly one line, \<^verbatim>\<open>{"err"}\<close>, which is the serialisation of no record. A
  request whose handler panics with \<^verbatim>\<open>nil\<close>, or whose record does not serialise, adds
  nothing.
\<close>

theorem one_line_per_request:
  assumes "h r (wrapResponseWriter (fst s)) = (w', out)"
  shows \<open>(\<forall>d. out = Return \<and> fe (real_of_int el / 1000000000) = Some d \<longrightarrow>
            snd (fst (loggingMiddleware fe h el r s)) =
              snd s @ [structEncoder (fields_HTTPRequestInfo
                 \<lparr>Method = req_Method r, URL = req_URL r, Referer = req_Referer r,
                  UserAgent = req_UserAgent r, Status = 0,
                  Duration = real_of_int el / 1000000000\<rparr> d)] \<and>
            Marshal_HTTPRequestInfo fe
                 \<lparr>Method = req_Method r, URL = req_URL r, Referer = req_Referer r,
                  UserAgent = req_UserAgent r, Status = 0,
                  Duration = real_of_int el / 1000000000\<rparr> =
              Inr (structEncoder (fields_HTTPRequestInfo
                 \<lparr>Method = req_Method r, URL = req_URL r, Referer = req_Referer r,
                  UserAgent = req_UserAgent r, Status = 0,
                  Duration = real_of_int el / 1000000000\<rparr> d))) \<and>
         (\<forall>v. out = Panic (PanicWith v) \<longrightarrow>
            snd (fst (loggingMiddleware fe h el r s)) = snd s @ [''{"err"}''] \<and>
            (\<forall>fe' info. Marshal_HTTPRequestInfo fe' info \<noteq> Inr ''{"err"}'')) \<and>
         (out = Panic PanicNil \<or> (out = Return \<and> fe (real_of_int el / 1000000000) = None) \<longrightarrow>
            snd (fst (loggingMiddleware fe h el r s)) = snd s)\<close>
proof (intro conjI impI allI)
  fix d
  assume a: "out = Return \<and> fe (real_of_int el / 1000000000) = Some d"
  with assms have ret: "h r (wrapResponseWriter (fst s)) = (w', Return)"
      and enc: "fe (real_of_int el / 1000000000) = Some d"
    by simp_all
  from loggingMiddleware_Return [of h r s w' fe el d, OF ret enc]
  show "snd (fst (loggingMiddleware fe h el r s)) =
              snd s @ [structEncoder (fields_HTTPRequestInfo
                 \<lparr>Method = req_Method r, URL = req_URL r, Referer = req_Referer r,
                  UserAgent = req_UserAgent r, Status = 0,
                  Duration = real_of_int el / 1000000000\<rparr> d)]"
    by simp
  show "Marshal_HTTPRequestInfo fe
                 \<lparr>Method = req_Method r, URL = req_URL r, Referer = req_Referer r,
                  UserAgent = req_UserAgent r, Status = 0,
                  Duration = real_of_int el / 1000000000\<rparr> =
              Inr (structEncoder (fields_HTTPRequestInfo
                 \<lparr>Method = req_Method r, URL = req_URL r, Referer = req_Referer r,
                  UserAgent = req_UserAgent r, Status = 0,
                  Duration = real_of_int el / 1000000000\<rparr> d))"
    using enc by (simp add: Marshal_HTTPRequestInfo_def)
next
  fix v assume "out = Panic (PanicWith v)"
  with assms have pan: "h r (wrapResponseWriter (fst s)) = (w', Panic (PanicWith v))" by simp
  from loggingMiddleware_PanicWith [of h r s w' v fe el, OF pan]
  show \<open>snd (fst (loggingMiddleware fe h el r s)) = snd s @ [''{"err"}'']\<close> by simp
next
  fix v fe' info
  show \<open>Marshal_HTTPRequestInfo fe' info \<noteq> Inr ''{"err"}''\<close> by (rule Marshal_not_err)
next
  assume "out = Panic PanicNil \<or> (out = Return \<and> fe (real_of_int el / 1000000000) = None)"
  then show "snd (fst (loggingMiddleware fe h el r s)) = snd s"
  proof
    assume "out = Panic PanicNil"
    with assms have pan: "h r (wrapResponseWriter (fst s)) = (w', Panic PanicNil)" by simp
    from loggingMiddleware_PanicNil [of h r s w' fe el, OF pan] show ?thesis by simp
  next
    assume "out = Return \<and> fe (real_of_int el / 1000000000) = None"
    with assms have ret: "h r (wrapResponseWriter (fst s)) = (w', Return)"
      and enc: "fe (real_of_int el / 1000000000) = None" by simp_all
    from loggingMiddleware_Marshal_fails [of h r s w' fe el, OF ret enc] show ?thesis by simp
  qed
qed

text \<open>
  The handler of \<^verbatim>\<open>/\<close> returns and its request is logged as its record; a handler that
  panics with a value is logged as \<^verbatim>\<open>{"err"}\<close>.
\<close>

theorem one_line_per_request_witness:
  \<open>rootHandler exampleRequest (wrapResponseWriter newResponse) =
      (responseWriter_Write ''WORKING'' (wrapResponseWriter newResponse), Return) \<and>
    exampleFloatEncoder (real_of_int 2500000 / 1000000000) = Some ''0.0025'' \<and>
    snd (fst (loggingMiddleware exampleFloatEncoder rootHandler 2500000 exampleRequest
                (newResponse, []))) =
      [''{"method":"GET","url":"/","referer":"","userAgent":"curl/7.68.0","status":0,"duration":0.0025}''] \<and>
    scripted [] (Panic (PanicWith ''boom'')) exampleRequest (wrapResponseWriter newResponse) =
      (wrapResponseWriter newResponse, Panic (PanicWith ''boom'')) \<and>
    snd (fst (loggingMiddleware exampleFloatEncoder (scripted [] (Panic (PanicWith ''boom'')))
                2500000 exampleRequest (newResponse, []))) = [''{"err"}'']\<close>
proof -
  have a: "rootHandler exampleRequest (wrapResponseWriter (fst (newResponse, []))) =
      (responseWriter_Write ''WORKING'' (wrapResponseWriter newResponse), Return)"
    by (simp add: rootHandler_def)
  have b: "exampleFloatEncoder (real_of_int 2500000 / 1000000000) = Some ''0.0025''"
    by (simp add: exampleFloatEncoder_def)
  have c: "scripted [] (Panic (PanicWith ''boom'')) exampleRequest
             (wrapResponseWriter (fst (newResponse, []))) =
      (wrapResponseWriter newResponse, Panic (PanicWith ''boom''))"
    by (simp add: scripted_def)
  from one_line_per_request [of rootHandler exampleRequest "(newResponse, [])" _ Return
         exampleFloatEncoder 2500000, OF a] b
  have \<open>snd (fst (loggingMiddleware exampleFloatEncoder rootHandler 2500000 exampleRequest
                     (newResponse, []))) =
      [''{"method":"GET","url":"/","referer":"","userAgent":"curl/7.68.0","status":0,"duration":0.0025}'']\<close>
    by (simp add: exampleRequest_def structEncoder_def fields_HTTPRequestInfo_def stringEncoder_def
          quote_def htmlSafeSet_def itoa_def digits.simps digit_char_def)
  moreover
  from one_line_per_request [of "scripted [] (Panic (PanicWith ''boom''))" exampleRequest
         "(newResponse, [])" _ "Panic (PanicWith ''boom'')" exampleFloatEncoder 2500000, OF c]
  have \<open>snd (fst (loggingMiddleware exampleFloatEncoder (scripted [] (Panic (PanicWith ''boom'')))
                2500000 exampleRequest (newResponse, []))) = [''{"err"}'']\<close>
    by simp
  ultimately show ?thesis using a b c by simp
qed

text \<open>
  C4 fails at \<^verbatim>\<open>panic(nil)\<close>: \<^verbatim>\<open>recover()\<close> returns \<^verbatim>\<open>nil\<close>, so the deferred function
  neither writes status 500 nor logs, and the response goes out with status 200.
\<close>

theorem panic_recovery_counterexample:
  "loggingMiddleware exampleFloatEncoder (scripted [] (Panic PanicNil)) 2500000 exampleRequest
     (newResponse, []) = ((newResponse, []), Return) \<and>
   resp_status (finishRequest (fst (fst (loggingMiddleware exampleFloatEncoder
     (scripted [] (Panic PanicNil)) 2500000 exampleRequest (newResponse, []))))) = 200"
  by (simp add: loggingMiddleware_def Let_def deferred_PanicNil scripted_def
        wrapResponseWriter_def finishRequest_def newResponse_def)

text \<open>
  C4, as the code has it. When the handler panics with a value other than \<^verbatim>\<open>nil\<close>, the
  middleware returns normally, as it does for every request whatever its handler does, logs
  the one line \<^verbatim>\<open>{"err"}\<close>, and the response goes out with status 500 unless the handler
  had a header written already, whose status then stands; the body is what the handler
  wrote.
\<close>

theorem panic_recovery:
  assumes "h r (wrapResponseWriter rw) = (w', Panic (PanicWith v))"
  shows \<open>snd (loggingMiddleware fe h el r (rw, lg)) = Return \<and>
         (\<forall>h' el' r' s'. snd (loggingMiddleware fe h' el' r' s') = Return) \<and>
         snd (fst (loggingMiddleware fe h el r (rw, lg))) = lg @ [''{"err"}''] \<and>
         resp_status (finishRequest (fst (fst (loggingMiddleware fe h el r (rw, lg))))) =
           (if resp_wroteHeader (ResponseWriter w') then resp_status (ResponseWriter w') else 500) \<and>
         resp_body (finishRequest (fst (fst (loggingMiddleware fe h el r (rw, lg))))) =
           resp_body (ResponseWriter w')\<close>
proof -
  have pan: "h r (wrapResponseWriter (fst (rw, lg))) = (w', Panic (PanicWith v))"
    using assms by simp
  from loggingMiddleware_PanicWith [of h r "(rw, lg)" w' v fe el, OF pan]
  show ?thesis
    by (simp add: response_WriteHeader_500 finishRequest_def loggingMiddleware_returns)
qed

text \<open>
  A handler that panics at once, nothing written: the middleware returns, the log holds
  \<^verbatim>\<open>{"err"}\<close> and the status is 500.
\<close>

theorem panic_recovery_witness:
  \<open>scripted [] (Panic (PanicWith ''boom'')) exampleRequest (wrapResponseWriter newResponse) =
      (wrapResponseWriter newResponse, Panic (PanicWith ''boom'')) \<and>
    snd (loggingMiddleware exampleFloatEncoder (scripted [] (Panic (PanicWith ''boom'')))
           2500000 exampleRequest (newResponse, [])) = Return \<and>
    snd (fst (loggingMiddleware exampleFloatEncoder (scripted [] (Panic (PanicWith ''boom'')))
           2500000 exampleRequest (newResponse, []))) = [''{"err"}''] \<and>
    resp_status (finishRequest (fst (fst (loggingMiddleware exampleFloatEncoder
           (scripted [] (Panic (PanicWith ''boom''))) 2500000 exampleRequest (newResponse, []))))) = 500\<close>
proof -
  have c: "scripted [] (Panic (PanicWith ''boom'')) exampleRequest (wrapResponseWriter newResponse) =
      (wrapResponseWriter newResponse, Panic (PanicWith ''boom''))"
    by (simp add: scripted_def)
  from panic_recovery [of "scripted [] (Panic (PanicWith ''boom''))" exampleRequest newResponse
         _ "''boom''" exampleFloatEncoder 2500000 "[]", OF c] c
  show ?thesis
    by (simp add: wrapResponseWriter_def newResponse_def)
qed

lemma stringEncoder_access_denied: \<open>stringEncoder ''access denied'' = ''"access denied"''\<close>
  by (simp add: stringEncoder_def quote_def htmlSafeSet_def)

lemma identityHandler_fails:
  "nS = Some err \<or> (nS = None \<and> gCI = Inl err) \<Longrightarrow>
     identityHandler nS gCI r rw = (errorHandler rw err, Return)"
  by (auto simp: identityHandler_def)

text \<open>
  C6 fails in its last part: the body of the failed request is not
  \<^verbatim>\<open>{"error":"access denied"}\<close> but that text and a newline, which \<^verbatim>\<open>json.Encoder\<close>
  writes after every value.
\<close>

theorem error_envelope_body_counterexample:
  \<open>resp_body (finishRequest (fst (fst
      (loggingMiddleware exampleFloatEncoder (identityHandler None (Inl (OtherError ''access denied'')))
         2500000 exampleRequest (newResponse, []))))) = ''{"error":"access denied"}'' @ [CHR 0x0A] \<and>
    resp_body (finishRequest (fst (fst
      (loggingMiddleware exampleFloatEncoder (identityHandler None (Inl (OtherError ''access denied'')))
         2500000 exampleRequest (newResponse, []))))) \<noteq> ''{"error":"access denied"}''\<close>
  by (simp add: loggingMiddleware_def Let_def Marshal_HTTPRequestInfo_def deferred_Return
        exampleFloatEncoder_def identityHandler_def errorHandler_Write responseWriter_Write_def
        response_Write_def wrapResponseWriter_def newResponse_def bodyAllowedForStatus_def
        finishRequest_def stringEncoder_def quote_def htmlSafeSet_def)

text \<open>
  C6, as the code has it. \<^verbatim>\<open>errorHandler\<close> leaves the wrapper's status and \<open>wroteHeader\<close>
  alone and makes no \<^verbatim>\<open>WriteHeader\<close> call on the sink. A request to \<^verbatim>\<open>/identity\<close> whose
  session or identity call fails with \<open>err\<close> goes out with status 200 and, as its body, the
  envelope of the message of \<open>err\<close> followed by the newline of the encoder, which reads back
  as that message: for the message \<^verbatim>\<open>access denied\<close> the body is
  \<^verbatim>\<open>{"error":"access denied"}\<close> and a newline.
\<close>

theorem error_envelope_keeps_status:
  assumes "newSession = Some err \<or> (newSession = None \<and> getCallerIdentity = Inl err)"
  shows
  \<open>status (errorHandler w err) = status w \<and>
    wroteHeader (errorHandler w err) = wroteHeader w \<and>
    hdr_calls (ResponseWriter (errorHandler w err)) = hdr_calls (ResponseWriter w) \<and>
    resp_status (finishRequest (fst (fst
      (loggingMiddleware fe (identityHandler newSession getCallerIdentity) el r (newResponse, lg))))) = 200 \<and>
    resp_body (finishRequest (fst (fst
      (loggingMiddleware fe (identityHandler newSession getCallerIdentity) el r (newResponse, lg))))) =
      ''{"error":'' @ stringEncoder (error_Error err) @ ''}'' @ [CHR 0x0A] \<and>
    readEnvelope (resp_body (finishRequest (fst (fst
      (loggingMiddleware fe (identityHandler newSession getCallerIdentity) el r (newResponse, lg)))))) =
      Some (coerceUTF8 (error_Error err)) \<and>
    (error_Error err = ''access denied'' \<longrightarrow>
      resp_body (finishRequest (fst (fst
        (loggingMiddleware fe (identityHandler newSession getCallerIdentity) el r (newResponse, lg))))) =
        ''{"error":"access denied"}'' @ [CHR 0x0A])\<close>
proof -
  let ?w' = "errorHandler (wrapResponseWriter newResponse) err"
  have h: "identityHandler newSession getCallerIdentity r (wrapResponseWriter (fst (newResponse, lg)))
             = (?w', Return)"
    using identityHandler_fails [OF assms] by simp
  have sink: \<open>ResponseWriter ?w' =
      \<lparr>hdr_calls = [], resp_wroteHeader = True, resp_status = 200,
       resp_body = ''{"error":'' @ stringEncoder (error_Error err) @ ''}'' @ [CHR 0x0A]\<rparr>\<close>
    by (simp add: errorHandler_Write responseWriter_Write_def response_Write_def
          wrapResponseWriter_def newResponse_def bodyAllowedForStatus_def)
  have final: \<open>resp_status (finishRequest (fst (fst
      (loggingMiddleware fe (identityHandler newSession getCallerIdentity) el r (newResponse, lg))))) = 200 \<and>
    resp_body (finishRequest (fst (fst
      (loggingMiddleware fe (identityHandler newSession getCallerIdentity) el r (newResponse, lg))))) =
      ''{"error":'' @ stringEncoder (error_Error err) @ ''}'' @ [CHR 0x0A]\<close>
  proof (cases "fe (real_of_int el / 1000000000)")
    case None
    from loggingMiddleware_Marshal_fails
           [of "identityHandler newSession getCallerIdentity" r "(newResponse, lg)" ?w' fe el, OF h None]
    show ?thesis
      by (simp add: sink response_WriteHeader_500 finishRequest_def)
  next
    case (Some d)
    from loggingMiddleware_Return
           [of "identityHandler newSession getCallerIdentity" r "(newResponse, lg)" ?w' fe el d, OF h Some]
    show ?thesis
      by (simp add: sink finishRequest_def)
  qed
  have keep: "status (errorHandler w err) = status w \<and>
    wroteHeader (errorHandler w err) = wroteHeader w \<and>
    hdr_calls (ResponseWriter (errorHandler w err)) = hdr_calls (ResponseWriter w)"
    by (simp add: errorHandler_Write responseWriter_Write_def response_Write_hdr_calls)
  have json: \<open>readEnvelope (''{"error":'' @ stringEncoder (error_Error err) @ ''}'' @ [CHR 0x0A]) =
      Some (coerceUTF8 (error_Error err))\<close>
    unfolding stringEncoder_def readEnvelope_envelope by (rule unescape_encodeString)
  show ?thesis
  proof (intro conjI impI)
    assume "error_Error err = ''access denied''"
    with final show \<open>resp_body (finishRequest (fst (fst
        (loggingMiddleware fe (identityHandler newSession getCallerIdentity) el r (newResponse, lg))))) =
        ''{"error":"access denied"}'' @ [CHR 0x0A]\<close>
      by (simp add: stringEncoder_access_denied)
  qed (use keep final json in simp_all)
qed

text \<open>
  The identity call fails with \<^verbatim>\<open>access denied\<close>.
\<close>

theorem error_envelope_keeps_status_witness:
  \<open>resp_status (finishRequest (fst (fst
      (loggingMiddleware exampleFloatEncoder (identityHandler None (Inl (OtherError ''access denied'')))
         2500000 exampleRequest (newResponse, []))))) = 200 \<and>
    resp_body (finishRequest (fst (fst
      (loggingMiddleware exampleFloatEncoder (identityHandler None (Inl (OtherError ''access denied'')))
         2500000 exampleRequest (newResponse, []))))) = ''{"error":"access denied"}'' @ [CHR 0x0A] \<and>
    readEnvelope (resp_body (finishRequest (fst (fst
      (loggingMiddleware exampleFloatEncoder (identityHandler None (Inl (OtherError ''access denied'')))
         2500000 exampleRequest (newResponse, [])))))) = Some ''access denied'' \<and>
    status (errorHandler (wrapResponseWriter newResponse) (OtherError ''access denied'')) = 0\<close>
proof -
  have pre: "(None :: go_error option) = Some (OtherError ''access denied'') \<or>
             ((None :: go_error option) = None \<and>
              (Inl (OtherError ''access denied'') :: go_error + string) = Inl (OtherError ''access denied''))"
    by simp
  note t = error_envelope_keeps_status [of None "OtherError ''access denied''"
          "Inl (OtherError ''access denied'')" "wrapResponseWriter newResponse"
          exampleFloatEncoder 2500000 exampleRequest "[]", OF pre]
  have "status (errorHandler (wrapResponseWriter newResponse) (OtherError ''access denied'')) = 0"
    using t by (simp add: wrapResponseWriter_def)
  moreover have \<open>resp_body (finishRequest (fst (fst
      (loggingMiddleware exampleFloatEncoder (identityHandler None (Inl (OtherError ''access denied'')))
         2500000 exampleRequest (newResponse, []))))) = ''{"error":"access denied"}'' @ [CHR 0x0A]\<close>
    using t by (simp add: stringEncoder_def quote_def htmlSafeSet_def)
  moreover have \<open>readEnvelope (resp_body (finishRequest (fst (fst
      (loggingMiddleware exampleFloatEncoder (identityHandler None (Inl (OtherError ''access denied'')))
         2500000 exampleRequest (newResponse, [])))))) = Some ''access denied''\<close>
  proof -
    have c: "coerceUTF8 ''access denied'' = ''access denied''" by simp
    from t have "readEnvelope (resp_body (finishRequest (fst (fst
      (loggingMiddleware exampleFloatEncoder (identityHandler None (Inl (OtherError ''access denied'')))
         2500000 exampleRequest (newResponse, [])))))) =
        Some (coerceUTF8 (error_Error (OtherError ''access denied'')))"
      by blast
    then show ?thesis unfolding error_Error.simps c .
  qed
  moreover have "resp_status (finishRequest (fst (fst
      (loggingMiddleware exampleFloatEncoder (identityHandler None (Inl (OtherError ''access denied'')))
         2500000 exampleRequest (newResponse, []))))) = 200"
    using t by blast
  ultimately show ?thesis by blast
qed




section \<open>Properties of the lifecycle\<close>

declare step.simps [simp del]


lemma lifecycle_ShuttingDown:
  "lifecycle p = ShuttingDown \<longleftrightarrow> begun p \<and> (\<forall>c. main_pc p \<noteq> Exited c)"
  by (auto simp: lifecycle_def begun_def split: main_loc.splits)

lemma begun_step: "begun p \<Longrightarrow> begun (step e p)"
  by (cases e; cases "task_pc p"; cases "main_pc p")
     (simp_all add: step.simps begun_def task_step_def)

lemma entering_step:
  assumes "lifecycle p \<noteq> ShuttingDown" and "lifecycle (step e p) = ShuttingDown"
  shows "e = TaskStep \<and> task_pc p = AtReceive \<and> 0 < sigint p"
  using assms
  by (cases e; cases "task_pc p"; cases "main_pc p";
      simp add: step.simps lifecycle_def task_step_def listening_def split: if_splits)

lemma entries_begun: "begun p \<Longrightarrow> entries es p = 0"
proof (induction es arbitrary: p)
  case Nil
  show ?case by simp
next
  case (Cons e es)
  have "\<not> (lifecycle p \<noteq> ShuttingDown \<and> lifecycle (step e p) = ShuttingDown)"
    using Cons.prems entering_step [of p e] by (auto simp: begun_def)
  with Cons.IH [OF begun_step [OF Cons.prems]] show ?case by simp
qed

lemma entries_le_1: "entries es p \<le> 1"
proof (induction es arbitrary: p)
  case Nil
  show ?case by simp
next
  case (Cons e es)
  show ?case
  proof (cases "lifecycle p \<noteq> ShuttingDown \<and> lifecycle (step e p) = ShuttingDown")
    case True
    then have "begun (step e p)" by (simp add: lifecycle_ShuttingDown)
    then have "entries es (step e p) = 0" by (rule entries_begun)
    with True show ?thesis by simp
  next
    case False
    then have "entries (e # es) p = entries es (step e p)" by auto
    with Cons.IH [of "step e p"] show ?thesis by simp
  qed
qed


lemma shutdown_inv_step: "shutdown_inv p \<Longrightarrow> shutdown_inv (step e p)"
  by (cases e; cases "task_pc p"; cases "main_pc p")
     (auto simp: step.simps shutdown_inv_def task_step_def)

lemma shutdown_inv_run: "shutdown_inv p \<Longrightarrow> shutdown_inv (run es p)"
  by (induction es arbitrary: p) (simp_all add: shutdown_inv_step)

lemma shutdown_inv_initial: "shutdown_inv initial"
  by (simp add: shutdown_inv_def initial_def)

lemma interrupt_after_begun:
  assumes "lifecycle p = ShuttingDown" and "shutdown_inv p"
  shows "step Interrupt p = p\<lparr>sigint := 1\<rparr>"
  using assms
  by (cases "task_pc p"; cases "main_pc p")
     (auto simp: step.simps lifecycle_def shutdown_inv_def)

lemma receive_enters:
  assumes "task_pc p = AtReceive" and "0 < sigint p" and "\<forall>c. main_pc p \<noteq> Exited c"
  shows "lifecycle p \<noteq> ShuttingDown \<and> lifecycle (step TaskStep p) = ShuttingDown"
  using assms
  by (cases "main_pc p") (auto simp: step.simps lifecycle_def task_step_def)

text \<open>No interrupt, no shutdown: without an interrupt the channel stays empty.\<close>

lemma quiet_step:
  "e \<noteq> Interrupt \<Longrightarrow> sigint p = 0 \<Longrightarrow> \<not> begun p \<Longrightarrow>
     sigint (step e p) = 0 \<and> \<not> begun (step e p)"
  by (cases e; cases "task_pc p"; cases "main_pc p")
     (auto simp: step.simps begun_def task_step_def)

lemma quiet_entries:
  "Interrupt \<notin> set es \<Longrightarrow> sigint p = 0 \<Longrightarrow> \<not> begun p \<Longrightarrow> entries es p = 0"
proof (induction es arbitrary: p)
  case Nil
  then show ?case by simp
next
  case (Cons e es)
  from Cons.prems have e: "e \<noteq> Interrupt" and es: "Interrupt \<notin> set es" by auto
  note q = quiet_step [OF e Cons.prems(2,3)]
  have "\<not> (lifecycle p \<noteq> ShuttingDown \<and> lifecycle (step e p) = ShuttingDown)"
    using q by (simp add: lifecycle_ShuttingDown)
  moreover have "entries es (step e p) = 0"
    using Cons.IH [OF es] q by simp
  ultimately show ?case by simp
qed

lemma run_append: "run (xs @ ys) p = run ys (run xs p)"
  by (induction xs arbitrary: p) simp_all

lemma begun_run: "begun p \<Longrightarrow> begun (run es p)"
  by (induction es arbitrary: p) (simp_all add: begun_step)

lemma begin_step:
  assumes "\<not> begun p" and "begun (step e p)"
  shows "lifecycle p \<noteq> ShuttingDown \<and> lifecycle (step e p) = ShuttingDown"
  using assms
  by (cases e; cases "task_pc p"; cases "main_pc p";
      simp add: step.simps lifecycle_def begun_def task_step_def listening_def split: if_splits)

lemma entries_run:
  "\<not> begun p \<Longrightarrow> entries es p = (if begun (run es p) then 1 else 0)"
proof (induction es arbitrary: p)
  case Nil
  then show ?case by simp
next
  case (Cons e es)
  show ?case
  proof (cases "begun (step e p)")
    case True
    note b = begin_step [OF Cons.prems True]
    have "entries es (step e p) = 0" using True by (rule entries_begun)
    moreover have "begun (run es (step e p))" using True by (rule begun_run)
    ultimately show ?thesis using b by simp
  next
    case False
    then have "lifecycle (step e p) \<noteq> ShuttingDown" by (simp add: lifecycle_ShuttingDown)
    with Cons.IH [OF False] show ?thesis by simp
  qed
qed

text \<open>A signal that waits in the channel stays there until the goroutine takes it.\<close>

lemma waiting_step:
  assumes "begun p \<or> (task_pc p = AtReceive \<and> sigint p = 1)"
  shows "begun (step e p) \<or> (task_pc (step e p) = AtReceive \<and> sigint (step e p) = 1)"
  using assms
  by (cases e; cases "task_pc p"; cases "main_pc p")
     (auto simp: step.simps begun_def task_step_def)

lemma waiting_run:
  "begun p \<or> (task_pc p = AtReceive \<and> sigint p = 1) \<Longrightarrow>
   begun (run es p) \<or> (task_pc (run es p) = AtReceive \<and> sigint (run es p) = 1)"
proof (induction es arbitrary: p)
  case Nil
  then show ?case by simp
next
  case (Cons e es)
  from Cons.IH [OF waiting_step [OF Cons.prems, of e]] show ?case by simp
qed

lemma run_Exited: "main_pc p = Exited c \<Longrightarrow> run es p = p"
  by (induction es) (simp_all add: step.simps)

lemma interrupt_notified:
  assumes "notified p" and "shutdown_inv p" and "\<forall>c. main_pc p \<noteq> Exited c"
  shows "begun (step Interrupt p) \<or>
         (task_pc (step Interrupt p) = AtReceive \<and> sigint (step Interrupt p) = 1)"
  using assms
  by (cases "task_pc p"; cases "main_pc p")
     (auto simp: step.simps begun_def shutdown_inv_def)

lemma main_pc_TaskStep: "main_pc (step TaskStep p) = main_pc p"
  by (cases "task_pc p"; cases "main_pc p") (simp_all add: step.simps task_step_def)

lemma take_waiting:
  assumes "begun p \<or> (task_pc p = AtReceive \<and> sigint p = 1)" and "\<forall>c. main_pc p \<noteq> Exited c"
  shows "begun (step TaskStep p)"
  using assms
  by (cases "task_pc p"; cases "main_pc p") (auto simp: step.simps begun_def task_step_def)

lemma interrupt_dropped:
  assumes "notified p" and "1 \<le> sigint p"
  shows "step Interrupt p = p"
  using assms by (cases "main_pc p") (simp_all add: step.simps)

lemma interrupt_triggers:
  assumes n: "notified (run es1 initial)"
    and alive: "\<forall>c. main_pc (run (es1 @ Interrupt # es2) initial) \<noteq> Exited c"
  shows "entries (es1 @ Interrupt # es2 @ [TaskStep]) initial = 1 \<and>
         lifecycle (run (es1 @ Interrupt # es2 @ [TaskStep]) initial) = ShuttingDown"
proof -
  let ?p = "run es1 initial"
  let ?q = "run (es1 @ Interrupt # es2) initial"
  have inv: "shutdown_inv ?p" by (rule shutdown_inv_run [OF shutdown_inv_initial])
  have q: "?q = run es2 (step Interrupt ?p)" by (simp add: run_append)
  have live: "\<forall>c. main_pc ?p \<noteq> Exited c"
  proof (intro allI notI)
    fix c assume c: "main_pc ?p = Exited c"
    then have "step Interrupt ?p = ?p" by (simp add: step.simps)
    with q run_Exited [OF c, of es2] have "?q = ?p" by simp
    with c alive show False by simp
  qed
  have "begun ?q \<or> (task_pc ?q = AtReceive \<and> sigint ?q = 1)"
    unfolding q by (rule waiting_run [OF interrupt_notified [OF n inv live]])
  then have b: "begun (step TaskStep ?q)" using alive by (rule take_waiting)
  have r: "run (es1 @ Interrupt # es2 @ [TaskStep]) initial = step TaskStep ?q"
    by (simp add: run_append)
  have "\<not> begun initial" by (simp add: begun_def initial_def)
  from entries_run [OF this, of "es1 @ Interrupt # es2 @ [TaskStep]"] b
  have e: "entries (es1 @ Interrupt # es2 @ [TaskStep]) initial = 1"
    unfolding r by simp
  have "lifecycle (step TaskStep ?q) = ShuttingDown"
    using b alive by (simp add: lifecycle_ShuttingDown main_pc_TaskStep)
  with e r show ?thesis by simp
qed

text \<open>
  C9 fails for an interrupt that arrives before the goroutine has run \<^verbatim>\<open>signal.Notify\<close>:
  the signal has its default effect and ends the process, which never enters
  \<open>ShuttingDown\<close> and never calls \<^verbatim>\<open>srv.Shutdown\<close>, whatever is scheduled afterwards.
  It fails as well when \<^verbatim>\<open>ListenAndServe\<close> returns an error while the signal waits in the
  channel: \<^verbatim>\<open>log.Fatalf\<close> ends the process before the goroutine takes it.
\<close>

theorem shutdown_entered_once_counterexample:
  "Interrupt \<in> set [Interrupt, TaskStep, TaskStep, Bound] \<and>
   main_pc (run [Interrupt] initial) = Exited Killed \<and>
   lifecycle (run [Interrupt] initial) = Stopped \<and>
   entries [Interrupt, TaskStep, TaskStep, Bound] initial = 0 \<and>
   shutdowns (run [Interrupt, TaskStep, TaskStep, Bound] initial) = 0 \<and>
   entries [Interrupt, TaskStep, TaskStep, Bound] initial \<noteq> 1 \<and>
   Interrupt \<in> set [TaskStep, Interrupt, ListenError, TaskStep] \<and>
   main_pc (run [TaskStep, Interrupt, ListenError, TaskStep] initial) = Exited Fatal \<and>
   entries [TaskStep, Interrupt, ListenError, TaskStep] initial = 0"
  by (simp add: step.simps initial_def lifecycle_def task_step_def listening_def)

text \<open>
  C9, as the code has it, for every run \<open>es\<close> of the process from its start.
  \<open>ShuttingDown\<close> is entered at most once and \<^verbatim>\<open>srv.Shutdown\<close> is called at most once;
  the state has been entered exactly when the goroutine is past its receive, and only in
  a run with an interrupt. An interrupt delivered once \<^verbatim>\<open>signal.Notify\<close> has run makes the
  next step of the goroutine enter \<open>ShuttingDown\<close>, exactly once, whatever happens in
  between, provided the process has not ended by then. An interrupt delivered before
  \<^verbatim>\<open>signal.Notify\<close> has run ends the process with the state never entered. An interrupt
  that finds a signal waiting in the channel is dropped, so the one taken is the first.
  The state is entered by no step but the receive of the goroutine taking the signal that
  waits in the channel, and that step does enter it. Once the process is shutting down, a
  further interrupt changes nothing but the channel, where it waits unread: no state
  changes and no call is made.
\<close>

theorem shutdown_entered_once:
  "entries es initial \<le> 1 \<and>
   shutdowns (run es initial) \<le> 1 \<and>
   entries es initial = (if begun (run es initial) then 1 else 0) \<and>
   (entries es initial = 1 \<longrightarrow> Interrupt \<in> set es) \<and>
   (notified (run es initial) \<and>
      (\<forall>c. main_pc (run (es @ Interrupt # es') initial) \<noteq> Exited c) \<longrightarrow>
      entries (es @ Interrupt # es' @ [TaskStep]) initial = 1 \<and>
      lifecycle (run (es @ Interrupt # es' @ [TaskStep]) initial) = ShuttingDown) \<and>
   (\<not> notified (run es initial) \<longrightarrow>
      entries (es @ Interrupt # es') initial = 0 \<and>
      (\<exists>c. main_pc (run (es @ Interrupt # es') initial) = Exited c)) \<and>
   (\<forall>p. notified p \<and> 1 \<le> sigint p \<longrightarrow> step Interrupt p = p) \<and>
   (\<forall>p e. lifecycle p \<noteq> ShuttingDown \<and> lifecycle (step e p) = ShuttingDown \<longrightarrow>
      e = TaskStep \<and> task_pc p = AtReceive \<and> 0 < sigint p) \<and>
   (task_pc (run es initial) = AtReceive \<and> 0 < sigint (run es initial) \<and>
      (\<forall>c. main_pc (run es initial) \<noteq> Exited c) \<longrightarrow>
      lifecycle (run es initial) \<noteq> ShuttingDown \<and>
      lifecycle (step TaskStep (run es initial)) = ShuttingDown) \<and>
   (lifecycle (run es initial) = ShuttingDown \<longrightarrow>
      step Interrupt (run es initial) = (run es initial)\<lparr>sigint := 1\<rparr>)"
proof -
  have inv: "shutdown_inv (run es initial)"
    by (rule shutdown_inv_run [OF shutdown_inv_initial])
  have nb: "\<not> begun initial" by (simp add: begun_def initial_def)
  have 1: "entries es initial \<le> 1" by (rule entries_le_1)
  have 2: "shutdowns (run es initial) \<le> 1"
    using inv by (simp add: shutdown_inv_def split: if_splits)
  have 3: "entries es initial = (if begun (run es initial) then 1 else 0)"
    by (rule entries_run [OF nb])
  have 4: "entries es initial = 1 \<longrightarrow> Interrupt \<in> set es"
  proof (intro impI, rule ccontr)
    assume e: "entries es initial = 1" and "Interrupt \<notin> set es"
    then have "entries es initial = 0"
      by (intro quiet_entries) (simp_all add: initial_def begun_def)
    with e show False by simp
  qed
  have 5: "notified (run es initial) \<and>
      (\<forall>c. main_pc (run (es @ Interrupt # es') initial) \<noteq> Exited c) \<longrightarrow>
      entries (es @ Interrupt # es' @ [TaskStep]) initial = 1 \<and>
      lifecycle (run (es @ Interrupt # es' @ [TaskStep]) initial) = ShuttingDown"
  proof
    assume a: "notified (run es initial) \<and>
      (\<forall>c. main_pc (run (es @ Interrupt # es') initial) \<noteq> Exited c)"
    then have n: "notified (run es initial)"
      and l: "\<forall>c. main_pc (run (es @ Interrupt # es') initial) \<noteq> Exited c" by simp_all
    show "entries (es @ Interrupt # es' @ [TaskStep]) initial = 1 \<and>
      lifecycle (run (es @ Interrupt # es' @ [TaskStep]) initial) = ShuttingDown"
      by (rule interrupt_triggers [OF n l])
  qed
  have 6: "\<not> notified (run es initial) \<longrightarrow>
      entries (es @ Interrupt # es') initial = 0 \<and>
      (\<exists>c. main_pc (run (es @ Interrupt # es') initial) = Exited c)"
  proof
    assume n: "\<not> notified (run es initial)"
    let ?p = "run es initial"
    have ex: "\<exists>c. main_pc (step Interrupt ?p) = Exited c"
      using n by (cases "main_pc ?p") (simp_all add: step.simps)
    from ex obtain c where "main_pc (step Interrupt ?p) = Exited c" ..
    from run_Exited [OF this, of es']
    have r: "run (es @ Interrupt # es') initial = step Interrupt ?p"
      by (simp add: run_append)
    have t: "task_pc ?p = AtNotify"
      using inv n by (simp add: shutdown_inv_def split: if_splits)
    have "task_pc (step Interrupt ?p) = AtNotify"
      using t n by (cases "main_pc ?p") (simp_all add: step.simps)
    then have "\<not> begun (run (es @ Interrupt # es') initial)"
      unfolding r by (simp add: begun_def)
    with entries_run [OF nb, of "es @ Interrupt # es'"]
    have "entries (es @ Interrupt # es') initial = 0" by simp
    with ex r show "entries (es @ Interrupt # es') initial = 0 \<and>
      (\<exists>c. main_pc (run (es @ Interrupt # es') initial) = Exited c)" by simp
  qed
  have 7: "\<forall>p. notified p \<and> 1 \<le> sigint p \<longrightarrow> step Interrupt p = p"
    by (simp add: interrupt_dropped)
  have 8: "\<forall>p e. lifecycle p \<noteq> ShuttingDown \<and> lifecycle (step e p) = ShuttingDown \<longrightarrow>
      e = TaskStep \<and> task_pc p = AtReceive \<and> 0 < sigint p"
    using entering_step by blast
  have 9: "task_pc (run es initial) = AtReceive \<and> 0 < sigint (run es initial) \<and>
      (\<forall>c. main_pc (run es initial) \<noteq> Exited c) \<longrightarrow>
      lifecycle (run es initial) \<noteq> ShuttingDown \<and>
      lifecycle (step TaskStep (run es initial)) = ShuttingDown"
    using receive_enters [of "run es initial"] by blast
  have 10: "lifecycle (run es initial) = ShuttingDown \<longrightarrow>
      step Interrupt (run es initial) = (run es initial)\<lparr>sigint := 1\<rparr>"
    using interrupt_after_begun [OF _ inv] by blast
  from 1 2 3 4 5 6 7 8 9 10 show ?thesis by (intro conjI)
qed

text \<open>
  Runs with several interrupts. After \<^verbatim>\<open>signal.Notify\<close>: the first is taken by the goroutine
  and starts the one shutdown, a second one that finds the first still waiting is dropped,
  one that arrives during the shutdown waits in the channel. Before \<^verbatim>\<open>signal.Notify\<close>:
  the process is killed.
\<close>

theorem shutdown_entered_once_witness:
  "notified (run [Bound, TaskStep] initial) \<and>
   (\<forall>c. main_pc (run ([Bound, TaskStep] @ Interrupt # [Interrupt, Bound]) initial) \<noteq> Exited c) \<and>
   entries ([Bound, TaskStep] @ Interrupt # [Interrupt, Bound] @ [TaskStep]) initial = 1 \<and>
   lifecycle (run ([Bound, TaskStep] @ Interrupt # [Interrupt, Bound] @ [TaskStep]) initial) =
     ShuttingDown \<and>
   \<not> notified (run [Bound] initial) \<and>
   entries ([Bound] @ Interrupt # [TaskStep, Interrupt, TaskStep]) initial = 0 \<and>
   main_pc (run ([Bound] @ Interrupt # [TaskStep, Interrupt, TaskStep]) initial) = Exited Killed \<and>
   Interrupt \<in> set [Bound, TaskStep, Interrupt, TaskStep, Interrupt, TaskStep, Interrupt, TaskStep,
            ListenClosed, TaskStep, MainStep] \<and>
   entries [Bound, TaskStep, Interrupt, TaskStep, Interrupt, TaskStep, Interrupt, TaskStep,
            ListenClosed, TaskStep, MainStep] initial = 1 \<and>
   shutdowns (run [Bound, TaskStep, Interrupt, TaskStep, Interrupt, TaskStep, Interrupt, TaskStep,
            ListenClosed, TaskStep, MainStep] initial) = 1 \<and>
   lifecycle (run [Bound, TaskStep, Interrupt] initial) = Serving \<and>
   task_pc (run [Bound, TaskStep, Interrupt] initial) = AtReceive \<and>
   0 < sigint (run [Bound, TaskStep, Interrupt] initial) \<and>
   step Interrupt (run [Bound, TaskStep, Interrupt] initial) =
     run [Bound, TaskStep, Interrupt] initial \<and>
   lifecycle (run [Bound, TaskStep, Interrupt, TaskStep] initial) = ShuttingDown \<and>
   step Interrupt (run [Bound, TaskStep, Interrupt, TaskStep] initial) =
     (run [Bound, TaskStep, Interrupt, TaskStep] initial)\<lparr>sigint := 1\<rparr>"
proof -
  let ?es = "[Bound, TaskStep, Interrupt, TaskStep, Interrupt, TaskStep, Interrupt, TaskStep,
              ListenClosed, TaskStep, MainStep]"
  have n: "notified (run [Bound, TaskStep] initial)"
    by (simp add: step.simps initial_def task_step_def)
  have a: "\<forall>c. main_pc (run ([Bound, TaskStep] @ Interrupt # [Interrupt, Bound]) initial) \<noteq> Exited c"
    by (simp add: step.simps initial_def task_step_def)
  have n': "\<not> notified (run [Bound] initial)"
    by (simp add: step.simps initial_def task_step_def)
  have k: "main_pc (run ([Bound] @ Interrupt # [TaskStep, Interrupt, TaskStep]) initial) = Exited Killed"
    by (simp add: step.simps initial_def task_step_def)
  have e: "entries ?es initial = 1"
    by (simp add: step.simps initial_def lifecycle_def task_step_def listening_def)
  have s: "shutdowns (run ?es initial) = 1"
    by (simp add: step.simps initial_def task_step_def listening_def)
  have r3: "run [Bound, TaskStep, Interrupt] initial =
      \<lparr>main_pc = Accepting, task_pc = AtReceive, notified = True, sigint = 1,
       shutdowns = 0, idleConnsClosed = False\<rparr>"
    by (simp add: step.simps initial_def task_step_def)
  have r4: "run [Bound, TaskStep, Interrupt, TaskStep] initial =
      \<lparr>main_pc = Accepting, task_pc = AtShutdown, notified = True, sigint = 0,
       shutdowns = 0, idleConnsClosed = False\<rparr>"
    by (simp add: step.simps initial_def task_step_def)
  have l4: "lifecycle (run [Bound, TaskStep, Interrupt, TaskStep] initial) = ShuttingDown"
    unfolding r4 by (simp add: lifecycle_def)
  have l3: "lifecycle (run [Bound, TaskStep, Interrupt] initial) = Serving"
    "task_pc (run [Bound, TaskStep, Interrupt] initial) = AtReceive"
    "0 < sigint (run [Bound, TaskStep, Interrupt] initial)"
    "notified (run [Bound, TaskStep, Interrupt] initial) \<and>
     1 \<le> sigint (run [Bound, TaskStep, Interrupt] initial)"
    unfolding r3 by (simp_all add: lifecycle_def)
  from shutdown_entered_once [of "[Bound, TaskStep]" "[Interrupt, Bound]"] n a
  have c1: "entries ([Bound, TaskStep] @ Interrupt # [Interrupt, Bound] @ [TaskStep]) initial = 1 \<and>
    lifecycle (run ([Bound, TaskStep] @ Interrupt # [Interrupt, Bound] @ [TaskStep]) initial) =
     ShuttingDown" by blast
  from shutdown_entered_once [of "[Bound]" "[TaskStep, Interrupt, TaskStep]"] n'
  have c2: "entries ([Bound] @ Interrupt # [TaskStep, Interrupt, TaskStep]) initial = 0" by blast
  from shutdown_entered_once [of ?es] e have c3: "Interrupt \<in> set ?es" by blast
  from shutdown_entered_once [of "[Bound, TaskStep, Interrupt, TaskStep]"] l4
  have c4: "step Interrupt (run [Bound, TaskStep, Interrupt, TaskStep] initial) =
     (run [Bound, TaskStep, Interrupt, TaskStep] initial)\<lparr>sigint := 1\<rparr>" by blast
  from shutdown_entered_once [of "[]"] l3(4)
  have c5: "step Interrupt (run [Bound, TaskStep, Interrupt] initial) =
     run [Bound, TaskStep, Interrupt] initial" by blast
  from n a c1 n' c2 k c3 e s l3(1,2,3) c5 l4 c4 show ?thesis by (intro conjI) blast+
qed

end
